theory Spec2Isabelle
  imports Complex_Main "HOL-Library.AList" "HOL-Library.Log_Nat"
begin

section \<open>JavaScript values\<close>

text \<open>
  The worker and the backend are JavaScript. Values that the code tests
  dynamically (truthiness, \<open>||\<close>, strict equality, property access) are
  modelled by \<open>jsval\<close>. A number is a finite double, given by its value, a
  rational number (\<open>JSON.stringify\<close> writes \<open>null\<close> for \<open>NaN\<close> and for an
  infinity, so that no stored value is one of them). An object is the list
  of its own properties in insertion order, each key once.
\<close>

datatype jsval =
    JUndefined
  | JNull
  | JBool bool
  | JNum rat
  | JStr string
  | JArr "jsval list"
  | JObj "(string \<times> jsval) list"

type_synonym jsobj = "(string \<times> jsval) list"

text \<open>ToBoolean: \<open>undefined\<close>, \<open>null\<close>, \<open>false\<close>, \<open>0\<close> and \<open>""\<close> are falsy.\<close>

fun truthy :: "jsval \<Rightarrow> bool" where
  "truthy JUndefined = False"
| "truthy JNull = False"
| "truthy (JBool b) = b"
| "truthy (JNum n) = (n \<noteq> 0)"
| "truthy (JStr s) = (s \<noteq> [])"
| "truthy (JArr xs) = True"
| "truthy (JObj kvs) = True"

text \<open>\<open>a || b\<close>.\<close>

definition js_or :: "jsval \<Rightarrow> jsval \<Rightarrow> jsval" where
  "js_or a b = (if truthy a then a else b)"

text \<open>\<open>o.k\<close> on an object read from JSON: a missing property is \<open>undefined\<close>.\<close>

definition js_get :: "jsobj \<Rightarrow> string \<Rightarrow> jsval" where
  "js_get obj k = (case map_of obj k of None \<Rightarrow> JUndefined | Some v \<Rightarrow> v)"

text \<open>
  \<open>v.k\<close> on a value that is neither \<open>null\<close> nor \<open>undefined\<close>: a primitive or
  an array has no such named property.
\<close>

fun js_member :: "jsval \<Rightarrow> string \<Rightarrow> jsval" where
  "js_member (JObj kvs) k = js_get kvs k"
| "js_member v k = JUndefined"

text \<open>Object spread \<open>{...a, ...b}\<close>.\<close>

definition spread :: "jsobj \<Rightarrow> jsobj \<Rightarrow> jsobj" where
  "spread a b = foldl (\<lambda>acc (k, v). AList.update k v acc) a b"

section \<open>Numbers\<close>

text \<open>
  A JavaScript number is an IEEE-754 double: 53 significant bits, the least
  exponent of a bit being \<open>-1074\<close>. The sum and the product of two doubles are
  the exact sum and product rounded to the nearest double, a tie going to the
  double whose last bit is 0. No sum or product computed by the code modelled
  here is large enough to round to an infinity.

  \<open>binade x\<close>, for a positive \<open>x\<close>, is the exponent \<open>e\<close> with
  \<open>2 powi e \<le> x < 2 powi (e + 1)\<close>: by the bit lengths of numerator and
  denominator it is their difference or one less.
\<close>

definition binade :: "rat \<Rightarrow> int" where
  "binade x =
     (case quotient_of x of (a, b) \<Rightarrow>
        (let d = bitlen a - bitlen b in if 2 powi d \<le> x then d else d - 1))"

definition roundTiesToEven :: "rat \<Rightarrow> int" where
  "roundTiesToEven q =
     (let n = \<lfloor>q\<rfloor>; f = q - of_int n
      in if f < 1 / 2 then n else if 1 / 2 < f then n + 1 else if even n then n else n + 1)"

text \<open>The double nearest to an exact result \<open>x\<close>.\<close>

definition double_of :: "rat \<Rightarrow> rat" where
  "double_of x =
     (if x = 0 then 0
      else (let u = 2 powi (max (binade \<bar>x\<bar> - 52) (- 1074))
            in sgn x * of_int (roundTiesToEven (\<bar>x\<bar> / u)) * u))"

text \<open>The rationals that are the value of a finite double.\<close>

definition is_double :: "rat \<Rightarrow> bool" where
  "is_double x = (double_of x = x \<and> \<bar>x\<bar> < 2 ^ 1024)"

text \<open>\<open>ToIntegerOrInfinity\<close> truncates towards zero.\<close>

definition ToIntegerOrInfinity :: "rat \<Rightarrow> int" where
  "ToIntegerOrInfinity v = (if v < 0 then \<lceil>v\<rceil> else \<lfloor>v\<rfloor>)"

text \<open>\<open>v | 0\<close> is \<open>ToInt32\<close>: truncated, then wrapped into 32 bits, signed.\<close>

definition ToInt32 :: "rat \<Rightarrow> int" where
  "ToInt32 v =
     (let n = ToIntegerOrInfinity v mod 2 ^ 32 in if 2 ^ 31 \<le> n then n - 2 ^ 32 else n)"

section \<open>Dates\<close>

text \<open>
  A \<open>Date\<close> holds a time value: whole milliseconds since 1970-01-01T00:00:00Z,
  or NaN (\<open>None\<close>). The functions below are the ones ECMAScript defines for
  time values (ECMA-262, Date objects), on which the UTC getters and setters
  used by the worker are built.
\<close>

type_synonym timevalue = "int option"

definition msPerDay :: int where
  "msPerDay = 86400000"

definition maxTime :: int where
  "maxTime = 8640000000000000"

definition Day :: "int \<Rightarrow> int" where
  "Day t = t div msPerDay"

definition TimeWithinDay :: "int \<Rightarrow> int" where
  "TimeWithinDay t = t mod msPerDay"

definition DaysInYear :: "int \<Rightarrow> int" where
  "DaysInYear y =
     (if y mod 4 \<noteq> 0 then 365 else if y mod 100 \<noteq> 0 then 366
      else if y mod 400 \<noteq> 0 then 365 else 366)"

definition DayFromYear :: "int \<Rightarrow> int" where
  "DayFromYear y =
     365 * (y - 1970) + (y - 1969) div 4 - (y - 1901) div 100 + (y - 1601) div 400"

text \<open>
  \<open>YearFromTime(t)\<close> is the largest \<open>y\<close> with \<open>DayFromYear(y) \<le> Day(t)\<close>. It is
  computed by counting up from a year that is not after it.
\<close>

function year_search :: "int \<Rightarrow> int \<Rightarrow> int" where
  "year_search y d = (if DayFromYear (y + 1) \<le> d then year_search (y + 1) d else y)"
  by pat_completeness auto
termination
proof (relation "measure (\<lambda>(y, d). nat (d + 1 - DayFromYear (y + 1)))")
  show "wf (measure (\<lambda>(y, d). nat (d + 1 - DayFromYear (y + 1))))"
    by simp
next
  fix y d :: int
  assume le: "DayFromYear (y + 1) \<le> d"
  have a: "(y + 1 - 1969) div 4 \<le> (y + 1 + 1 - 1969) div 4"
    by (rule zdiv_mono1) simp_all
  have "(y + 1 + 1 - 1901) div 100 \<le> (y + 1 - 1901 + 100) div 100"
    by (rule zdiv_mono1) simp_all
  then have b: "(y + 1 + 1 - 1901) div 100 \<le> (y + 1 - 1901) div 100 + 1"
    by simp
  have c: "(y + 1 - 1601) div 400 \<le> (y + 1 + 1 - 1601) div 400"
    by (rule zdiv_mono1) simp_all
  have lin: "\<And>p p' q q' r r' :: int. p \<le> p' \<Longrightarrow> q' \<le> q + 1 \<Longrightarrow> r \<le> r' \<Longrightarrow>
      365 * (y + 1 - 1970) + p - q + r < 365 * (y + 1 + 1 - 1970) + p' - q' + r'"
    by arith
  have "DayFromYear (y + 1) < DayFromYear (y + 1 + 1)"
    unfolding DayFromYear_def by (rule lin [OF a b c])
  with le show "((y + 1, d), (y, d)) \<in> measure (\<lambda>(y, d). nat (d + 1 - DayFromYear (y + 1)))"
    by simp
qed

definition YearFromDay :: "int \<Rightarrow> int" where
  "YearFromDay d =
     year_search (1970 + (if 0 \<le> d then d div 366 else d div 365)) d"

definition YearFromTime :: "int \<Rightarrow> int" where
  "YearFromTime t = YearFromDay (Day t)"

definition DayWithinYear :: "int \<Rightarrow> int" where
  "DayWithinYear t = Day t - DayFromYear (YearFromTime t)"

definition InLeapYear :: "int \<Rightarrow> int" where
  "InLeapYear t = (if DaysInYear (YearFromTime t) = 365 then 0 else 1)"

text \<open>
  The day number within the year on which month \<open>m\<close> (0 to 11) starts, \<open>l\<close>
  being 1 in a leap year: the bounds of ECMAScript's table for \<open>MonthFromTime\<close>.
\<close>

definition monthStart :: "int \<Rightarrow> int \<Rightarrow> int" where
  "monthStart m l =
     (if m = 0 then 0 else if m = 1 then 31 else if m = 2 then 59 + l
      else if m = 3 then 90 + l else if m = 4 then 120 + l
      else if m = 5 then 151 + l else if m = 6 then 181 + l
      else if m = 7 then 212 + l else if m = 8 then 243 + l
      else if m = 9 then 273 + l else if m = 10 then 304 + l
      else 334 + l)"

definition month_of_day :: "int \<Rightarrow> int \<Rightarrow> int" where
  "month_of_day dwy l =
     (if dwy < 31 then 0 else if dwy < 59 + l then 1 else if dwy < 90 + l then 2
      else if dwy < 120 + l then 3 else if dwy < 151 + l then 4
      else if dwy < 181 + l then 5 else if dwy < 212 + l then 6
      else if dwy < 243 + l then 7 else if dwy < 273 + l then 8
      else if dwy < 304 + l then 9 else if dwy < 334 + l then 10
      else 11)"

definition MonthFromTime :: "int \<Rightarrow> int" where
  "MonthFromTime t = month_of_day (DayWithinYear t) (InLeapYear t)"

definition DateFromTime :: "int \<Rightarrow> int" where
  "DateFromTime t =
     DayWithinYear t - monthStart (MonthFromTime t) (InLeapYear t) + 1"

text \<open>
  \<open>MakeDay(year, month, date)\<close>: the day number of the first of the month
  \<open>month mod 12\<close> of the year \<open>year + floor(month / 12)\<close>, plus \<open>date - 1\<close>. A date
  outside the month is not clamped: it counts on into the following months.
\<close>

definition MakeDay :: "int \<Rightarrow> int \<Rightarrow> int \<Rightarrow> int" where
  "MakeDay year month date =
     (let ym = year + month div 12;
          mn = month mod 12
      in DayFromYear ym + monthStart mn (DaysInYear ym - 365) + date - 1)"

definition MakeDate :: "int \<Rightarrow> int \<Rightarrow> int" where
  "MakeDate day time = day * msPerDay + time"

definition TimeClip :: "int \<Rightarrow> timevalue" where
  "TimeClip time = (if \<bar>time\<bar> > maxTime then None else Some time)"

text \<open>The setters of \<open>Date.prototype\<close> used by the worker, on a valid time value.\<close>

definition setUTCDate :: "int \<Rightarrow> int \<Rightarrow> timevalue" where
  "setUTCDate t dt =
     TimeClip (MakeDate (MakeDay (YearFromTime t) (MonthFromTime t) dt) (TimeWithinDay t))"

definition setUTCMonth :: "int \<Rightarrow> int \<Rightarrow> timevalue" where
  "setUTCMonth t m =
     TimeClip (MakeDate (MakeDay (YearFromTime t) m (DateFromTime t)) (TimeWithinDay t))"

definition setUTCFullYear :: "int \<Rightarrow> int \<Rightarrow> timevalue" where
  "setUTCFullYear t y =
     TimeClip (MakeDate (MakeDay y (MonthFromTime t) (DateFromTime t)) (TimeWithinDay t))"

text \<open>
  The number of days of month \<open>m\<close> (0 to 11), \<open>l\<close> being 1 in a leap year:
  the distance between two consecutive bounds of the table above.
\<close>

definition DaysInMonth :: "int \<Rightarrow> int \<Rightarrow> int" where
  "DaysInMonth m l =
     (if m = 1 then 28 + l
      else if m = 3 \<or> m = 5 \<or> m = 8 \<or> m = 10 then 30
      else 31)"

section \<open>Interval advancement (worker.js, incrementNextRunIso)\<close>

text \<open>
  An ISO date string is represented by the time value that \<open>new Date(string)\<close>
  reads from it, \<open>None\<close> for a string that \<open>Date\<close> cannot read. \<open>toISOString\<close> of
  a valid \<open>Date\<close> writes the string that \<open>new Date\<close> reads back as the same
  time value; on an invalid \<open>Date\<close> it throws a \<open>RangeError\<close>.
\<close>

datatype js_error = RangeError | TypeError

definition Date_toISOString :: "timevalue \<Rightarrow> js_error + int" where
  "Date_toISOString d = (case d of None \<Rightarrow> Inl RangeError | Some t \<Rightarrow> Inr t)"

text \<open>\<open>Number.isFinite\<close> does not convert its argument: only a number is finite.\<close>

fun Number_isFinite :: "jsval \<Rightarrow> bool" where
  "Number_isFinite (JNum n) = True"
| "Number_isFinite v = False"

text \<open>
  \<open>TimeClip\<close> of a number that need not be whole, as \<open>setTime\<close> applies it: a
  number beyond the range of \<open>Date\<close> gives an invalid \<open>Date\<close>, any other is
  truncated to a whole number of milliseconds.
\<close>

definition TimeClip_number :: "rat \<Rightarrow> timevalue" where
  "TimeClip_number time =
     (if \<bar>time\<bar> > of_int maxTime then None else Some (ToIntegerOrInfinity time))"

text \<open>
  \<open>d.setTime(d.getTime() + Number(intervalMs))\<close> for a number \<open>intervalMs\<close>: the
  sum is a sum of doubles.
\<close>

fun setTime_plus :: "timevalue \<Rightarrow> jsval \<Rightarrow> timevalue" where
  "setTime_plus (Some t) (JNum x) = TimeClip_number (double_of (of_int t + x))"
| "setTime_plus d v = None"

definition incrementNextRunIso :: "timevalue \<Rightarrow> jsval \<Rightarrow> jsval \<Rightarrow> js_error + int" where
  "incrementNextRunIso isoString interval intervalMs =
     (if truthy intervalMs \<and> Number_isFinite intervalMs
      then Date_toISOString (setTime_plus isoString intervalMs)
      else Date_toISOString
        (case isoString of
           None \<Rightarrow> None
         | Some t \<Rightarrow>
             if interval = JStr ''daily'' then setUTCDate t (DateFromTime t + 1)
             else if interval = JStr ''weekly'' then setUTCDate t (DateFromTime t + 7)
             else if interval = JStr ''monthly'' then setUTCMonth t (MonthFromTime t + 1)
             else if interval = JStr ''yearly'' then setUTCFullYear t (YearFromTime t + 1)
             else setUTCDate t (DateFromTime t + 1)))"

text \<open>
  The time value of a UTC date and time of day, as \<open>Date.UTC\<close> computes it
  (month 0 to 11).
\<close>

definition MakeTime :: "int \<Rightarrow> int \<Rightarrow> int \<Rightarrow> int \<Rightarrow> int" where
  "MakeTime hour minute sec ms = hour * 3600000 + minute * 60000 + sec * 1000 + ms"

definition Date_UTC :: "int \<Rightarrow> int \<Rightarrow> int \<Rightarrow> int \<Rightarrow> int \<Rightarrow> int \<Rightarrow> int" where
  "Date_UTC year month date hour minute sec =
     MakeDate (MakeDay year month date) (MakeTime hour minute sec 0)"

section \<open>Strings and numbers as text\<close>

text \<open>
  Strings are ASCII text. \<open>toLowerCase\<close> maps the letters \<open>A\<close> to \<open>Z\<close>; \<open>trim\<close>
  removes the white space and line terminators of ASCII (tab, line feed,
  vertical tab, form feed, carriage return, space) from both ends.
\<close>

definition lower_char :: "char \<Rightarrow> char" where
  "lower_char c =
     (let n = (of_char c :: nat) in if 65 \<le> n \<and> n \<le> 90 then char_of (n + 32) else c)"

definition toLowerCase :: "string \<Rightarrow> string" where
  "toLowerCase s = map lower_char s"




text \<open>\<open>s.split("T")[0]\<close>: the text before the first \<open>T\<close>.\<close>

definition before_T :: "string \<Rightarrow> string" where
  "before_T s = takeWhile (\<lambda>c. c \<noteq> CHR ''T'') s"

definition digit_char :: "nat \<Rightarrow> char" where
  "digit_char d = ''0123456789abcdef'' ! (d mod 16)"

text \<open>The digits of a natural number in radix 10 and in radix 16.\<close>

fun digits10 :: "nat \<Rightarrow> string" where
  "digits10 n = (if n < 10 then [digit_char n] else digits10 (n div 10) @ [digit_char (n mod 10)])"

fun digits16 :: "nat \<Rightarrow> string" where
  "digits16 n = (if n < 16 then [digit_char n] else digits16 (n div 16) @ [digit_char (n mod 16)])"

text \<open>
  \<open>n.toString()\<close> and \<open>n.toString(16)\<close> of a whole number (below \<open>10^21\<close>, where
  JavaScript still writes all digits).
\<close>

definition Number_toString :: "int \<Rightarrow> string" where
  "Number_toString n = (if n < 0 then ''-'' @ digits10 (nat (- n)) else digits10 (nat n))"

definition Number_toString16 :: "int \<Rightarrow> string" where
  "Number_toString16 n = (if n < 0 then ''-'' @ digits16 (nat (- n)) else digits16 (nat n))"

text \<open>\<open>String(n).padStart(w, "0")\<close> for a natural number.\<close>

definition pad0 :: "nat \<Rightarrow> nat \<Rightarrow> string" where
  "pad0 w n = replicate (w - length (digits10 n)) (CHR ''0'') @ digits10 n"

text \<open>
  \<open>Date.prototype.toISOString\<close> of a valid time value:
  \<open>YYYY-MM-DDTHH:mm:ss.sssZ\<close>, the year with a sign and six digits outside
  0 to 9999.
\<close>

definition HourFromTime :: "int \<Rightarrow> int" where
  "HourFromTime t = (t div 3600000) mod 24"

definition MinFromTime :: "int \<Rightarrow> int" where
  "MinFromTime t = (t div 60000) mod 60"

definition SecFromTime :: "int \<Rightarrow> int" where
  "SecFromTime t = (t div 1000) mod 60"

definition msFromTime :: "int \<Rightarrow> int" where
  "msFromTime t = t mod 1000"

definition toISOString :: "int \<Rightarrow> string" where
  "toISOString t =
     (let y = YearFromTime t in
        if 0 \<le> y \<and> y \<le> 9999 then pad0 4 (nat y)
        else (if y < 0 then ''-'' else ''+'') @ pad0 6 (nat \<bar>y\<bar>))
     @ ''-'' @ pad0 2 (nat (MonthFromTime t + 1))
     @ ''-'' @ pad0 2 (nat (DateFromTime t))
     @ ''T'' @ pad0 2 (nat (HourFromTime t))
     @ '':'' @ pad0 2 (nat (MinFromTime t))
     @ '':'' @ pad0 2 (nat (SecFromTime t))
     @ ''.'' @ pad0 3 (nat (msFromTime t))
     @ ''Z''"

text \<open>
  \<open>Math.random()\<close> is a double \<open>u\<close> with \<open>0 \<le> u < 1\<close>; a source of random numbers
  is the sequence of its results, \<open>rnd i\<close> being the result of call \<open>i\<close>.
  \<open>uuidv4\<close> replaces every \<open>x\<close> and \<open>y\<close> of its template in turn, each with one
  call.
\<close>

fun uuid_replace :: "string \<Rightarrow> (nat \<Rightarrow> rat) \<Rightarrow> nat \<Rightarrow> string" where
  "uuid_replace [] rnd i = []"
| "uuid_replace (c # cs) rnd i =
     (if c = CHR ''x'' \<or> c = CHR ''y''
      then (let r = ToInt32 (double_of (rnd i * 16));
                v = (if c = CHR ''x'' then r else or (and r 3) 8)
            in Number_toString16 v @ uuid_replace cs rnd (i + 1))
      else c # uuid_replace cs rnd i)"

definition uuidv4 :: "(nat \<Rightarrow> rat) \<Rightarrow> string" where
  "uuidv4 rnd = uuid_replace ''xxxxxxxx-xxxx-4xxx-yxxx-xxxxxxxxxxxx'' rnd 0"

text \<open>The number that a string of decimal digits denotes.\<close>

definition digit_value :: "char \<Rightarrow> nat" where
  "digit_value c = of_char c - 48"

definition read_decimal :: "string \<Rightarrow> nat" where
  "read_decimal s = foldl (\<lambda>a c. 10 * a + digit_value c) 0 s"

section \<open>The per-user shard (worker.js, WalletDurableObject)\<close>

text \<open>
  A response is its HTTP status and its JSON body, as \<open>Response.json(body,
  {status})\<close> builds it (status 200 when none is given).
\<close>

datatype response = Response (resp_status: int) (resp_json: jsobj)

record Recipient =
  r_name :: string
  r_wallet :: string
  r_note :: jsval

text \<open>
  The storage of one shard: the \<open>auth\<close> object (\<open>nonce\<close> is a string or \<open>null\<close>)
  and the \<open>data\<close> envelope with its three lists. \<open>_getData\<close> and \<open>_putData\<close> read
  and write the envelope as a whole.
\<close>

record shard =
  nonce :: "string option"
  updated_at :: "string option"
  recipients :: "Recipient list"
  transactions :: "jsobj list"
  schedules :: "jsobj list"

definition empty_shard :: shard where
  "empty_shard = \<lparr>nonce = None, updated_at = None, recipients = [], transactions = [],
     schedules = []\<rparr>"

subsection \<open>Nonce and verify\<close>

text \<open>\<open>handleNonce\<close>, \<open>u\<close> being the result of \<open>Math.random()\<close> and \<open>now\<close> the clock.\<close>

definition handleNonce :: "rat \<Rightarrow> int \<Rightarrow> shard \<Rightarrow> response \<times> shard" where
  "handleNonce u now st =
     (let n = Number_toString \<lfloor>double_of (u * 1000000)\<rfloor>
      in (Response 200 [(''nonce'', JStr n)],
          st\<lparr>nonce := Some n, updated_at := Some (toISOString now)\<rparr>))"

text \<open>
  A signature is either malformed, and \<open>ethers.verifyMessage\<close> throws, or
  well formed, and \<open>verifyMessage\<close> recovers from it and from the message an
  address: the signer's address when the message is the one that was signed.
  A well-formed signature is represented by this recovery function.
\<close>

datatype signature = Malformed | WellFormed "string \<Rightarrow> string"

fun verifyMessage :: "string \<Rightarrow> signature \<Rightarrow> js_error + string" where
  "verifyMessage message Malformed = Inl TypeError"
| "verifyMessage message (WellFormed recover) = Inr (recover message)"

definition signin_message :: "string \<Rightarrow> string" where
  "signin_message n =
     ''Welcome to VoicePay!'' @ [CHR 0x0A, CHR 0x0A]
     @ ''To securely sign in, please confirm this message.'' @ [CHR 0x0A, CHR 0x0A]
     @ ''Security code: '' @ n @ [CHR 0x0A, CHR 0x0A]
     @ ''This signature will not trigger any blockchain transaction or gas fee.''"

definition handleVerify :: "string \<Rightarrow> signature \<Rightarrow> shard \<Rightarrow> response \<times> shard" where
  "handleVerify address signature st =
     (case nonce st of
        None \<Rightarrow> (Response 400 [(''error'', JStr ''Nonce not found'')], st)
      | Some n \<Rightarrow>
          if n = [] then (Response 400 [(''error'', JStr ''Nonce not found'')], st)
          else (case verifyMessage (signin_message n) signature of
                  Inl err \<Rightarrow> (Response 400 [(''error'', JStr ''Invalid signature format'')], st)
                | Inr recovered \<Rightarrow> (Response 200 [(''success'', JBool True)], st\<lparr>nonce := None\<rparr>)))"

subsection \<open>Recipients\<close>



subsection \<open>Transactions\<close>

text \<open>
  \<open>storeTransaction\<close>, \<open>rnd\<close> being the source of random numbers that \<open>uuidv4\<close>
  draws from and \<open>now\<close> the clock of the operation.
\<close>

definition storeTransaction :: "(nat \<Rightarrow> rat) \<Rightarrow> int \<Rightarrow> jsobj \<Rightarrow> shard \<Rightarrow> response \<times> shard" where
  "storeTransaction rnd now tx st =
     (let n_address = js_or (js_or (js_or (js_get tx ''address'') (js_get tx ''recipient''))
                         (js_get tx ''to'')) JNull;
          n_amount = js_get tx ''amount'';
          n_intent = js_or (js_or (js_get tx ''intent'') (js_get tx ''type'')) (JStr ''recurring'');
          n_start_date = js_or (js_get tx ''start_date'') (JStr (before_T (toISOString now)));
          n_time_of_day = js_or (js_get tx ''time_of_day'') JNull;
          n_currency = js_or (js_get tx ''currency'') (JStr ''USDC'');
          n_name = js_or (js_get tx ''name'') JNull;
          n_note = js_or (js_get tx ''note'') JNull;
          n_status = js_or (js_get tx ''status'') (JStr ''completed'');
          n_txHash = js_or (js_get tx ''txHash'') JNull
      in if \<not> truthy n_address \<or> \<not> truthy n_amount \<or> \<not> truthy n_intent
            \<or> \<not> truthy n_start_date
         then (Response 400
                 [(''error'', JStr ''Missing required fields: wallet, amount, intent, or start date'')],
               st)
         else
           (let entry =
                  [(''id'', JStr (uuidv4 rnd)),
                   (''name'', n_name),
                   (''type'', n_intent),
                   (''address'', n_address),
                   (''amount'', n_amount),
                   (''currency'', n_currency),
                   (''start_date'', n_start_date),
                   (''time_of_day'', n_time_of_day),
                   (''interval'', js_or (js_get tx ''interval'') JNull),
                   (''times'', js_or (js_get tx ''times'') JNull),
                   (''note'', js_or n_note (JStr ''NA'')),
                   (''status'', n_status),
                   (''txHash'', js_or n_txHash JNull),
                   (''timestamp'', JStr (toISOString now))]
            in (Response 200 [(''success'', JBool True), (''transaction'', JObj entry)],
                st\<lparr>transactions := transactions st @ [entry]\<rparr>)))"

subsection \<open>Schedules\<close>

text \<open>
  Strict equality \<open>===\<close> of two values that come from two JSON texts: equal
  primitives are equal, two arrays or two objects are never the same object.
\<close>

fun strict_eq :: "jsval \<Rightarrow> jsval \<Rightarrow> bool" where
  "strict_eq (JArr xs) b = False"
| "strict_eq (JObj kvs) b = False"
| "strict_eq a b = (a = b)"

text \<open>The own enumerable properties that spreading \<open>...v\<close> copies.\<close>

fun own_props :: "jsval \<Rightarrow> jsobj" where
  "own_props (JObj kvs) = kvs"
| "own_props (JArr xs) = zip (map digits10 [0..<length xs]) xs"
| "own_props (JStr s) = zip (map digits10 [0..<length s]) (map (\<lambda>c. JStr [c]) s)"
| "own_props v = []"

fun findIndex :: "('a \<Rightarrow> bool) \<Rightarrow> 'a list \<Rightarrow> nat option" where
  "findIndex p [] = None"
| "findIndex p (x # xs) =
     (if p x then Some 0 else map_option Suc (findIndex p xs))"

text \<open>\<open>updateSchedule\<close> throws \<open>Error("schedule not found")\<close> when no schedule has the id.\<close>

definition updateSchedule :: "jsval \<Rightarrow> jsval \<Rightarrow> shard \<Rightarrow> string + (jsobj \<times> shard)" where
  "updateSchedule scheduleId patch st =
     (case findIndex (\<lambda>s. strict_eq (js_get s ''id'') scheduleId) (schedules st) of
        None \<Rightarrow> Inl ''schedule not found''
      | Some idx \<Rightarrow>
          (let updated = spread (schedules st ! idx) (own_props patch)
           in Inr (updated, st\<lparr>schedules := (schedules st)[idx := updated]\<rparr>)))"

subsection \<open>The endpoints of the shard that the dispatcher calls\<close>

text \<open>
  \<open>fetch\<close> of the shard for \<open>POST /store-transaction\<close> and \<open>POST /update-schedule\<close>:
  \<open>address\<close> is the \<open>address\<close> query parameter and \<open>body\<close> the JSON body.
\<close>

definition post_store_transaction ::
    "(nat \<Rightarrow> rat) \<Rightarrow> int \<Rightarrow> string \<Rightarrow> jsobj \<Rightarrow> shard \<Rightarrow> response \<times> shard" where
  "post_store_transaction rnd now address body st =
     (if address = [] then (Response 400 [(''error'', JStr ''Missing address'')], st)
      else storeTransaction rnd now body st)"

definition post_update_schedule :: "string \<Rightarrow> jsobj \<Rightarrow> shard \<Rightarrow> response \<times> shard" where
  "post_update_schedule address body st =
     (if address = [] then (Response 400 [(''error'', JStr ''Missing address'')], st)
      else
        (let scheduleId = js_get body ''scheduleId'';
             patch = js_get body ''patch''
         in if \<not> truthy scheduleId \<or> \<not> truthy patch
            then (Response 400 [(''error'', JStr ''Missing scheduleId or patch'')], st)
            else (case updateSchedule scheduleId patch st of
                    Inl message \<Rightarrow>
                      (Response 500 [(''error'', js_or (JStr message) (JStr ''update failed''))], st)
                  | Inr (updated, st') \<Rightarrow>
                      (Response 200 [(''success'', JBool True), (''schedule'', JObj updated)], st'))))"

section \<open>The dispatcher (worker.js, processDueSchedules)\<close>

text \<open>
  An entry of the schedule index, as \<open>writeScheduleIndex\<close> writes it and
  \<open>JSON.parse\<close> reads it back. \<open>nextRun\<close> is the time value of its ISO string,
  \<open>times_remaining\<close> a whole number or \<open>null\<close>; the fields that the dispatcher
  only copies or tests for truthiness are JavaScript values.
\<close>

record IndexEntry =
  s_scheduleId :: string
  s_userAddress :: string
  s_nextRun :: timevalue
  s_recipient :: jsval
  s_amount :: jsval
  s_currency :: jsval
  s_interval :: jsval
  s_intervalMs :: jsval
  s_times :: jsval
  s_times_remaining :: "int option"
  s_name :: jsval
  s_note :: jsval
  s_created_at :: jsval

text \<open>
  What \<open>fetch\<close> of the executor endpoint gives: a response with its status and
  its body (\<open>None\<close> when the body is not JSON), or a rejection with the error's
  message.
\<close>

datatype fetch_outcome = Replied int "jsval option" | Rejected string

definition resp_ok :: "fetch_outcome \<Rightarrow> bool" where
  "resp_ok f = (case f of Replied st b \<Rightarrow> 200 \<le> st \<and> st \<le> 299 | Rejected m \<Rightarrow> False)"

definition resp_status_of :: "fetch_outcome \<Rightarrow> int" where
  "resp_status_of f = (case f of Replied st b \<Rightarrow> st | Rejected m \<Rightarrow> 0)"

definition respJson :: "fetch_outcome \<Rightarrow> jsval" where
  "respJson f =
     (case f of
        Replied st (Some j) \<Rightarrow> j
      | Replied st None \<Rightarrow> JObj [(''ok'', JBool False), (''error'', JStr ''invalid-json'')]
      | Rejected m \<Rightarrow> JObj [(''ok'', JBool False), (''error'', JStr m)])"

text \<open>\<open>a && b\<close>.\<close>

definition js_and :: "jsval \<Rightarrow> jsval \<Rightarrow> jsval" where
  "js_and a b = (if truthy a then b else a)"

text \<open>
  What one fire takes from outside: the executor's answer, the dispatcher's
  clock when it builds the transaction record and when it schedules a retry,
  and the shard's source of random numbers and clock when it stores the
  record.
\<close>

record fire_env =
  outcome :: fetch_outcome
  record_time :: int
  retry_time :: int
  shard_rnd :: "nat \<Rightarrow> rat"
  shard_time :: int

text \<open>
  The index \<open>SCHEDULE_KV\<close>, the shards \<open>WALLET_DO\<close> by name, and the schedule
  ids of the requests sent to the executor, in order.
\<close>

record world =
  SCHEDULE_KV :: "(string \<times> IndexEntry) list"
  WALLET_DO :: "string \<Rightarrow> shard"
  executor_calls :: "string list"

text \<open>\<open>stub.fetch\<close> of the shard of \<open>userAddress\<close>; the response is not read.\<close>

definition stub_fetch :: "string \<Rightarrow> (shard \<Rightarrow> response \<times> shard) \<Rightarrow> world \<Rightarrow> world" where
  "stub_fetch userAddress call w =
     (let name = toLowerCase userAddress
      in w\<lparr>WALLET_DO := (WALLET_DO w)(name := snd (call (WALLET_DO w name)))\<rparr>)"

definition json_of_count :: "int option \<Rightarrow> jsval" where
  "json_of_count c = (case c of None \<Rightarrow> JNull | Some n \<Rightarrow> JNum (of_int n))"

text \<open>
  The body of the loop of \<open>processDueSchedules\<close> for one entry \<open>s\<close>, in the
  three pieces of the source: the branch of a successful fire, the branch of
  a failed fire, and the test that chooses between them. An exception inside
  the body is caught and logged by the loop, and the loop goes on:
  \<open>incrementNextRunIso\<close> throws when the advanced date is not valid, after the
  transaction has been stored and before anything else is updated.
\<close>

definition fire_succeeded :: "fire_env \<Rightarrow> IndexEntry \<Rightarrow> jsval \<Rightarrow> world \<Rightarrow> world" where
  "fire_succeeded env s rj w0 =
     (let txRecord =
            [(''name'', JStr ''Recurring Payment''),
             (''intent'', JStr ''recurring''),
             (''amount'', s_amount s),
             (''note'', js_or (s_note s) (JStr '''')),
             (''status'', JStr ''completed''),
             (''recipient'', s_recipient s),
             (''start_date'', JStr (toISOString (record_time env))),
             (''txHash'', js_or (js_member rj ''txHash'') JNull),
             (''address'', s_recipient s)];
          w1 = stub_fetch (s_userAddress s)
                 (post_store_transaction (shard_rnd env) (shard_time env)
                    (s_userAddress s) txRecord) w0;
          times_remaining =
            (case s_times_remaining s of None \<Rightarrow> None | Some n \<Rightarrow> Some (n - 1))
      in case incrementNextRunIso (s_nextRun s) (s_interval s) (s_intervalMs s) of
           Inl err \<Rightarrow> w1
         | Inr nextRun \<Rightarrow>
             (let s' = s\<lparr>s_times_remaining := times_remaining, s_nextRun := Some nextRun\<rparr>
              in if times_remaining \<noteq> None \<and> the times_remaining \<le> 0
                 then
                   stub_fetch (s_userAddress s)
                     (post_update_schedule (s_userAddress s)
                        [(''scheduleId'', JStr (s_scheduleId s)),
                         (''patch'', JObj [(''active'', JBool False),
                                            (''times_remaining'', JNum 0)])])
                     (w1\<lparr>SCHEDULE_KV := AList.delete (s_scheduleId s) (SCHEDULE_KV w1)\<rparr>)
                 else
                   stub_fetch (s_userAddress s)
                     (post_update_schedule (s_userAddress s)
                        [(''scheduleId'', JStr (s_scheduleId s)),
                         (''patch'', JObj [(''nextRun'', JStr (toISOString nextRun)),
                                            (''times_remaining'',
                                             json_of_count times_remaining)])])
                     (w1\<lparr>SCHEDULE_KV :=
                           AList.update (s_scheduleId s) s' (SCHEDULE_KV w1)\<rparr>)))"

definition fire_failed :: "fire_env \<Rightarrow> IndexEntry \<Rightarrow> fetch_outcome \<Rightarrow> world \<Rightarrow> world" where
  "fire_failed env s resp w0 =
     (let rj = respJson resp;
          txRecord =
            [(''name'', JStr ''Recurring Payment''),
             (''intent'', JStr ''recurring''),
             (''amount'', s_amount s),
             (''note'', js_or (js_and rj (js_member rj ''error''))
                         (JStr (''backend error: '' @ Number_toString (resp_status_of resp)))),
             (''status'', JStr ''failed''),
             (''recipient'', s_recipient s),
             (''start_date'', JStr (toISOString (record_time env))),
             (''txHash'', JNull),
             (''address'', s_recipient s)];
          w1 = stub_fetch (s_userAddress s)
                 (post_store_transaction (shard_rnd env) (shard_time env)
                    (s_userAddress s) txRecord) w0;
          retryMs = 10 * 60 * 1000;
          nextRun = retry_time env + retryMs;
          s' = s\<lparr>s_nextRun := Some nextRun\<rparr>
      in stub_fetch (s_userAddress s)
           (post_update_schedule (s_userAddress s)
              [(''scheduleId'', JStr (s_scheduleId s)),
               (''patch'', JObj [(''nextRun'', JStr (toISOString nextRun))])])
           (w1\<lparr>SCHEDULE_KV := AList.update (s_scheduleId s) s' (SCHEDULE_KV w1)\<rparr>))"

text \<open>\<open>resp.ok && respJson && (respJson.ok || respJson.txHash)\<close>.\<close>

definition fire_ok :: "fetch_outcome \<Rightarrow> bool" where
  "fire_ok resp =
     (resp_ok resp \<and> truthy (respJson resp)
        \<and> (truthy (js_member (respJson resp) ''ok'')
             \<or> truthy (js_member (respJson resp) ''txHash'')))"

definition process_entry :: "int \<Rightarrow> fire_env \<Rightarrow> IndexEntry \<Rightarrow> world \<Rightarrow> world" where
  "process_entry now env s w =
     (case s_nextRun s of
        None \<Rightarrow> w
      | Some nextRunMs \<Rightarrow>
          if nextRunMs > now then w
          else
            (let w0 = w\<lparr>executor_calls := executor_calls w @ [s_scheduleId s]\<rparr>;
                 resp = outcome env
             in if fire_ok resp then fire_succeeded env s (respJson resp) w0
                else fire_failed env s resp w0))"

text \<open>
  One tick: \<open>processDueSchedules\<close> lists the index and handles the listed
  entries in turn, \<open>env s\<close> being what the fire of entry \<open>s\<close> takes from outside.
\<close>

definition processDueSchedules :: "int \<Rightarrow> (IndexEntry \<Rightarrow> fire_env) \<Rightarrow> world \<Rightarrow> world" where
  "processDueSchedules now env w =
     (let schedules = map snd (SCHEDULE_KV w)
      in if schedules = [] then w
         else foldl (\<lambda>w' s. process_entry now (env s) s w') w schedules)"

text \<open>A run of ticks, each with its clock and what its fires take from outside.\<close>

fun run_ticks :: "(int \<times> (IndexEntry \<Rightarrow> fire_env)) list \<Rightarrow> world \<Rightarrow> world" where
  "run_ticks [] w = w"
| "run_ticks ((now, env) # ticks) w = run_ticks ticks (processDueSchedules now env w)"

text \<open>
  The shard schedule of a schedule id: the one that \<open>updateSchedule\<close> patches,
  the first schedule of the shard with this id.
\<close>

definition schedule_of :: "string \<Rightarrow> shard \<Rightarrow> jsobj option" where
  "schedule_of sid st = find (\<lambda>sch. strict_eq (js_get sch ''id'') (JStr sid)) (schedules st)"

text \<open>
  Every entry of the index is stored under its own schedule id, as
  \<open>writeScheduleIndex\<close> and the dispatcher write it.
\<close>

definition index_keys_match :: "(string \<times> IndexEntry) list \<Rightarrow> bool" where
  "index_keys_match kv = list_all (\<lambda>(k, e). s_scheduleId e = k) kv"

section \<open>Service authentication (middleware/workerAuth.js)\<close>

text \<open>
  The parts of a request that \<open>workerAuth\<close> reads: the method, the two headers
  (\<open>None\<close> when absent), \<open>req.rawBody\<close> (\<open>None\<close> when the server has not kept it)
  and the text that \<open>stableStringify(req.body || {})\<close> gives.
\<close>

record request =
  req_method :: string
  x_worker_auth :: "string option"
  x_worker_timestamp :: "string option"
  rawBody :: "string option"
  stable_body :: string

text \<open>
  The middleware either answers itself or calls \<open>next()\<close>; the handler of
  \<open>/transactions/process-recurring\<close>, which executes the payment, runs only
  after \<open>next()\<close>.
\<close>

datatype middleware_result = Next | Respond response

text \<open>
  \<open>hmac secret text\<close> is the hex digest of HMAC-SHA-256 and \<open>toNumber\<close> is
  \<open>Number\<close> on a string, \<open>None\<close> for NaN: both are JavaScript's, and \<open>workerAuth\<close>
  is modelled for any such functions.
\<close>

definition workerAuth ::
    "(string \<Rightarrow> string \<Rightarrow> string) \<Rightarrow> (string \<Rightarrow> int option) \<Rightarrow> string \<Rightarrow> int \<Rightarrow> request
       \<Rightarrow> middleware_result" where
  "workerAuth hmac toNumber secret now req =
     (if req_method req \<noteq> ''POST'' \<and> req_method req \<noteq> ''PUT''
      then Respond (Response 405 [(''error'', JStr ''Method not allowed'')])
      else
        (case (x_worker_auth req, x_worker_timestamp req) of
           (Some signature, Some timestamp) \<Rightarrow>
             if signature = [] \<or> timestamp = []
             then Respond (Response 401 [(''error'', JStr ''Missing worker signature'')])
             else if (case toNumber timestamp of
                        None \<Rightarrow> False
                      | Some ts \<Rightarrow> \<bar>now - ts\<bar> > 5 * 60 * 1000)
             then Respond (Response 401 [(''error'', JStr ''Timestamp too old'')])
             else
               (let body = (case rawBody req of
                              None \<Rightarrow> stable_body req
                            | Some raw \<Rightarrow> if raw = [] then stable_body req else raw);
                    expected = hmac secret (timestamp @ body)
                in if signature \<noteq> expected
                   then Respond (Response 403 [(''error'', JStr ''Invalid worker signature'')])
                   else Next)
         | _ \<Rightarrow> Respond (Response 401 [(''error'', JStr ''Missing worker signature'')])))"

section \<open>Example inputs\<close>

text \<open>A request signed by the worker, with stand-ins for the two JavaScript functions.\<close>

definition example_request :: "(string \<Rightarrow> string \<Rightarrow> string) \<Rightarrow> request" where
  "example_request hmac =
     \<lparr>req_method = ''POST'',
      x_worker_auth = Some (hmac ''secret'' (''1700000000000'' @ ''{}'')),
      x_worker_timestamp = Some ''1700000000000'',
      rawBody = Some ''{}'',
      stable_body = ''{}''\<rparr>"

definition example_hmac :: "string \<Rightarrow> string \<Rightarrow> string" where
  "example_hmac secret text = ''mac:'' @ secret @ '':'' @ text"

definition example_toNumber :: "string \<Rightarrow> int option" where
  "example_toNumber s = (if s = ''1700000000000'' then Some 1700000000000 else None)"



text \<open>
  A schedule with one fire left, due at 2025-01-31T00:00:00Z, in the index and
  in the shard of its user, and what a fire takes from outside for a given
  answer of the executor.
\<close>

definition example_entry :: IndexEntry where
  "example_entry =
     \<lparr>s_scheduleId = ''sched-1'', s_userAddress = ''0xUser'',
      s_nextRun = Some 1738281600000, s_recipient = JStr ''0xrecipient'', s_amount = JNum 5,
      s_currency = JStr ''USDC'', s_interval = JStr ''monthly'', s_intervalMs = JNull,
      s_times = JNum 1, s_times_remaining = Some 1, s_name = JNull, s_note = JNull,
      s_created_at = JStr ''2025-01-01T00:00:00.000Z''\<rparr>"

definition example_schedule :: jsobj where
  "example_schedule =
     [(''id'', JStr ''sched-1''), (''recipient'', JStr ''0xrecipient''), (''amount'', JNum 5),
      (''interval'', JStr ''monthly''), (''times'', JNum 1), (''times_remaining'', JNum 1),
      (''nextRun'', JStr ''2025-01-31T00:00:00.000Z''), (''active'', JBool True)]"

definition example_world :: world where
  "example_world =
     \<lparr>SCHEDULE_KV = [(''sched-1'', example_entry)],
      WALLET_DO = (\<lambda>name. empty_shard)(''0xuser'' := empty_shard\<lparr>schedules := [example_schedule]\<rparr>),
      executor_calls = []\<rparr>"

definition example_env :: "fetch_outcome \<Rightarrow> fire_env" where
  "example_env answer =
     \<lparr>outcome = answer, record_time = 1738281600500, retry_time = 1738281601000,
      shard_rnd = (\<lambda>i. 1 / 2), shard_time = 1738281600700\<rparr>"

text \<open>
  The same schedule with a custom interval of \<open>10^16\<close> milliseconds, which no
  \<open>Date\<close> can hold, and an executor that answers \<open>{ok: true}\<close> to every request.
\<close>

definition stuck_entry :: IndexEntry where
  "stuck_entry =
     example_entry\<lparr>s_interval := JStr ''custom'', s_intervalMs := JNum 10000000000000000\<rparr>"

definition stuck_world :: world where
  "stuck_world = example_world\<lparr>SCHEDULE_KV := [(''sched-1'', stuck_entry)]\<rparr>"

definition always_ok :: "IndexEntry \<Rightarrow> fire_env" where
  "always_ok s = example_env (Replied 200 (Some (JObj [(''ok'', JBool True)])))"


text \<open>
  The same schedule created with the amount \<open>"0"\<close>, which \<open>/create-schedule\<close>
  accepts (a non-empty string) and stores as the number 0; the contract
  rejects a pull of amount 0, so every fire of it fails.
\<close>

definition zero_amount_entry :: IndexEntry where
  "zero_amount_entry = example_entry\<lparr>s_amount := JNum 0\<rparr>"

definition zero_amount_world :: world where
  "zero_amount_world = example_world\<lparr>SCHEDULE_KV := [(''sched-1'', zero_amount_entry)]\<rparr>"

section \<open>Properties\<close>

lemma js_get_update_other: "k' \<noteq> k \<Longrightarrow> js_get (AList.update k v obj) k' = js_get obj k'"
  by (simp add: js_get_def update_conv')

text \<open>
  Rounding to the nearest double: \<open>binade\<close> is the exponent of the leading
  bit, rounding is monotonic, and a whole number below \<open>2 ^ 53\<close> is a double.
\<close>

lemma pow2_pos: "0 < (2::rat) powi e"
  by (simp add: zero_less_power_int)

lemma pow2_add: "(2::rat) powi (a + b) = 2 powi a * 2 powi b"
  by (simp add: power_int_add)

lemma pow2_mono: "a \<le> b \<Longrightarrow> (2::rat) powi a \<le> 2 powi b"
  by (simp add: power_int_increasing)

lemma pow2_strict: "a < b \<Longrightarrow> (2::rat) powi a < 2 powi b"
  by (simp add: power_int_strict_increasing)

lemma pow2_nat: "0 \<le> e \<Longrightarrow> (2::rat) powi e = of_int (2 ^ nat e)"
  by (simp add: power_int_def)

lemma binade_spec:
  assumes "0 < x"
  shows "2 powi (binade x) \<le> x" and "x < 2 powi (binade x + 1)"
proof -
  obtain a b where q: "quotient_of x = (a, b)" by (cases "quotient_of x")
  have b: "0 < b" using quotient_of_denom_pos [OF q] .
  have x: "x = of_int a / of_int b" using quotient_of_div [OF q] .
  have a: "0 < a" using assms b unfolding x by (simp add: zero_less_divide_iff)
  let ?la = "bitlen a" and ?lb = "bitlen b"
  note ba = bitlen_bounds [OF a] and bb = bitlen_bounds [OF b]
  have la: "1 \<le> ?la" and lb: "1 \<le> ?lb"
    using a b bitlen_eq_zero_iff [of a] bitlen_eq_zero_iff [of b] bitlen_nonneg [of a] bitlen_nonneg [of b]
    by linarith+
  have a1: "(2::rat) powi (?la - 1) \<le> of_int a"
    using ba la by (simp add: pow2_nat)
  have a2: "of_int a < (2::rat) powi ?la"
  proof -
    have "a < 2 ^ nat ?la" using ba by simp
    then have "(of_int a :: rat) < of_int (2 ^ nat ?la)" by (simp only: of_int_less_iff)
    then show ?thesis using la by (simp add: pow2_nat)
  qed
  have b1: "(2::rat) powi (?lb - 1) \<le> of_int b"
    using bb lb by (simp add: pow2_nat)
  have b2: "of_int b < (2::rat) powi ?lb"
  proof -
    have "b < 2 ^ nat ?lb" using bb by simp
    then have "(of_int b :: rat) < of_int (2 ^ nat ?lb)" by (simp only: of_int_less_iff)
    then show ?thesis using lb by (simp add: pow2_nat)
  qed
  have bpos: "(0::rat) < of_int b" using b by simp
  let ?d = "?la - ?lb"
  have lo: "(2::rat) powi (?d - 1) \<le> x"
  proof -
    have "(2::rat) powi (?d - 1) * of_int b \<le> 2 powi (?d - 1) * 2 powi ?lb"
      using b2 pow2_pos [of "?d - 1"] by (simp add: mult_left_mono)
    also have "\<dots> = 2 powi (?la - 1)" by (simp add: pow2_add [symmetric])
    also have "\<dots> \<le> of_int a" by (rule a1)
    finally show ?thesis unfolding x using bpos by (simp add: pos_le_divide_eq)
  qed
  have hi: "x < (2::rat) powi (?d + 1)"
  proof -
    have "of_int a < (2::rat) powi ?la" by (rule a2)
    also have "\<dots> = 2 powi (?d + 1) * 2 powi (?lb - 1)" by (simp add: pow2_add [symmetric])
    also have "\<dots> \<le> 2 powi (?d + 1) * of_int b"
      using b1 pow2_pos [of "?d + 1"] by (simp add: mult_left_mono)
    finally show ?thesis unfolding x using bpos by (simp add: pos_divide_less_eq)
  qed
  have e: "binade x = (if 2 powi ?d \<le> x then ?d else ?d - 1)"
    by (simp add: binade_def q Let_def)
  show "2 powi (binade x) \<le> x" using lo by (simp add: e)
  show "x < 2 powi (binade x + 1)" using hi by (auto simp: e not_le)
qed

lemma binade_unique:
  assumes "2 powi e \<le> x" "x < 2 powi (e + 1)"
  shows "binade x = e"
proof -
  have pos: "0 < x" using pow2_pos [of e] assms(1) by linarith
  note s = binade_spec [OF pos]
  have "\<not> binade x < e"
  proof
    assume "binade x < e"
    then have "(2::rat) powi (binade x + 1) \<le> 2 powi e" by (intro pow2_mono) simp
    with s(2) assms(1) show False by linarith
  qed
  moreover have "\<not> e < binade x"
  proof
    assume "e < binade x"
    then have "(2::rat) powi (e + 1) \<le> 2 powi (binade x)" by (intro pow2_mono) simp
    with s(1) assms(2) show False by linarith
  qed
  ultimately show ?thesis by linarith
qed

lemma binade_mono:
  assumes "0 < x" "x \<le> y"
  shows "binade x \<le> binade y"
proof (rule ccontr)
  assume "\<not> binade x \<le> binade y"
  then have "(2::rat) powi (binade y + 1) \<le> 2 powi (binade x)" by (intro pow2_mono) simp
  moreover have "0 < y" using assms by linarith
  ultimately show False
    using binade_spec(1) [OF assms(1)] binade_spec(2) [of y] assms(2) by linarith
qed

lemma rne_cases:
  "roundTiesToEven q = \<lfloor>q\<rfloor> \<or> roundTiesToEven q = \<lfloor>q\<rfloor> + 1"
  by (simp add: roundTiesToEven_def Let_def)

lemma rne_int: "roundTiesToEven (of_int n) = n"
  by (simp add: roundTiesToEven_def Let_def)

lemma rne_ge:
  assumes "of_int n \<le> q"
  shows "n \<le> roundTiesToEven q"
proof -
  have "n \<le> \<lfloor>q\<rfloor>" using assms by (simp add: le_floor_iff)
  then show ?thesis using rne_cases [of q] by auto
qed

lemma rne_le:
  assumes "q \<le> of_int n"
  shows "roundTiesToEven q \<le> n"
proof (cases "q = of_int n")
  case True
  then show ?thesis by (simp add: rne_int)
next
  case False
  with assms have "q < of_int n" by simp
  then have "\<lfloor>q\<rfloor> < n" by (simp add: floor_less_iff)
  then show ?thesis using rne_cases [of q] by auto
qed

lemma rne_mono:
  assumes "q \<le> r"
  shows "roundTiesToEven q \<le> roundTiesToEven r"
proof (cases "\<lfloor>q\<rfloor> = \<lfloor>r\<rfloor>")
  case True
  have "q - of_int \<lfloor>q\<rfloor> \<le> r - of_int \<lfloor>r\<rfloor>" using assms True by simp
  then show ?thesis unfolding roundTiesToEven_def Let_def True by auto
next
  case False
  have "\<lfloor>q\<rfloor> \<le> \<lfloor>r\<rfloor>" using assms by (rule floor_mono)
  with False have "\<lfloor>q\<rfloor> + 1 \<le> \<lfloor>r\<rfloor>" by simp
  moreover have "\<lfloor>r\<rfloor> \<le> roundTiesToEven r" by (rule rne_ge) simp
  ultimately show ?thesis using rne_cases [of q] by auto
qed


lemma double_of_pos:
  assumes "0 < x"
  shows "double_of x
    = of_int (roundTiesToEven (x / 2 powi (max (binade x - 52) (- 1074))))
        * 2 powi (max (binade x - 52) (- 1074))"
  using assms by (simp add: double_of_def Let_def)

lemma double_of_neg: "double_of (- x) = - double_of x"
  by (simp add: double_of_def Let_def sgn_minus)

lemma double_of_zero: "double_of 0 = 0"
  by (simp add: double_of_def)

lemma double_of_nonneg:
  assumes "0 \<le> x"
  shows "0 \<le> double_of x"
proof (cases "x = 0")
  case True
  then show ?thesis by (simp add: double_of_zero)
next
  case False
  with assms have pos: "0 < x" by simp
  let ?u = "(2::rat) powi (max (binade x - 52) (- 1074))"
  have "0 \<le> x / ?u" using pos pow2_pos [of "max (binade x - 52) (- 1074)"] by simp
  then have "0 \<le> roundTiesToEven (x / ?u)" by (intro rne_ge) simp
  then show ?thesis
    unfolding double_of_pos [OF pos] using pow2_pos [of "max (binade x - 52) (- 1074)"] by simp
qed

lemma double_of_upper:
  assumes "0 < x"
  shows "double_of x \<le> 2 powi (binade x + 1)"
proof -
  let ?e = "binade x"
  let ?p = "max (?e - 52) (- 1074)"
  let ?u = "(2::rat) powi ?p"
  note u = pow2_pos [of ?p]
  note s = binade_spec [OF assms]
  show ?thesis
  proof (cases "?p \<le> ?e + 1")
    case True
    then have k: "0 \<le> ?e + 1 - ?p" by simp
    have "x / ?u \<le> 2 powi (?e + 1) / ?u" using s(2) u by (simp add: divide_right_mono)
    also have "2 powi (?e + 1) / ?u = 2 powi (?e + 1 - ?p)"
      by (simp add: power_int_diff)
    also have "\<dots> = of_int (2 ^ nat (?e + 1 - ?p))" using k by (rule pow2_nat)
    finally have "roundTiesToEven (x / ?u) \<le> 2 ^ nat (?e + 1 - ?p)" by (rule rne_le)
    then have "(of_int (roundTiesToEven (x / ?u)) :: rat) \<le> of_int (2 ^ nat (?e + 1 - ?p))"
      by (simp only: of_int_le_iff)
    also have "\<dots> = 2 powi (?e + 1 - ?p)" using k by (rule pow2_nat [symmetric])
    finally have "of_int (roundTiesToEven (x / ?u)) * ?u \<le> 2 powi (?e + 1 - ?p) * ?u"
      using u by (simp add: mult_right_mono)
    also have "\<dots> = 2 powi (?e + 1)" by (simp add: pow2_add [symmetric])
    finally show ?thesis unfolding double_of_pos [OF assms] .
  next
    case False
    then have lt: "?e + 1 < ?p" by simp
    have "x / ?u < 2 powi (?e + 1) / ?u" using s(2) u by (simp add: divide_strict_right_mono)
    also have "2 powi (?e + 1) / ?u = 2 powi (?e + 1 - ?p)"
      by (simp add: power_int_diff)
    also have "\<dots> \<le> 2 powi (- 1)" using lt by (intro pow2_mono) simp
    finally have h: "x / ?u < 1 / 2" by (simp add: power_int_minus)
    have nn: "0 \<le> x / ?u" using assms u by simp
    have lt1: "x / ?u < 1" using h by linarith
    have fl: "\<lfloor>x / ?u\<rfloor> = 0"
    proof (rule floor_unique)
      show "of_int 0 \<le> x / ?u" using nn by (simp only: of_int_0)
      show "x / ?u < of_int 0 + 1" using lt1 by (simp only: of_int_0 add_0)
    qed
    have "roundTiesToEven (x / ?u) = 0"
      using h by (simp add: roundTiesToEven_def Let_def fl)
    then have "double_of x = 0" unfolding double_of_pos [OF assms] by simp
    then show ?thesis using pow2_pos [of "?e + 1"] by simp
  qed
qed

lemma double_of_lower:
  assumes "0 < x" "- 1074 \<le> binade x - 52"
  shows "2 powi (binade x) \<le> double_of x"
proof -
  let ?e = "binade x"
  let ?p = "max (?e - 52) (- 1074)"
  let ?u = "(2::rat) powi ?p"
  have p: "?p = ?e - 52" using assms(2) by simp
  note u = pow2_pos [of ?p]
  note s = binade_spec [OF assms(1)]
  have "(of_int (2 ^ 52) :: rat) = 2 powi 52" by (simp add: power_int_def)
  also have "\<dots> = 2 powi ?e / ?u" unfolding p by (simp add: power_int_diff)
  also have "\<dots> \<le> x / ?u" using s(1) u by (simp add: divide_right_mono)
  finally have "2 ^ 52 \<le> roundTiesToEven (x / ?u)" by (rule rne_ge)
  then have "(of_int (2 ^ 52) :: rat) \<le> of_int (roundTiesToEven (x / ?u))"
    by (simp only: of_int_le_iff)
  then have A: "of_int (2 ^ 52) * ?u \<le> of_int (roundTiesToEven (x / ?u)) * ?u"
    using u by (simp add: mult_right_mono)
  have B: "of_int (2 ^ 52) * ?u = 2 powi ?e"
  proof -
    have "(of_int (2 ^ 52) :: rat) = 2 powi 52" by (simp add: power_int_def)
    then have "of_int (2 ^ 52) * ?u = 2 powi 52 * 2 powi (?e - 52)" unfolding p by simp
    also have "\<dots> = 2 powi (52 + (?e - 52))" by (simp only: pow2_add)
    also have "\<dots> = 2 powi ?e" by simp
    finally show ?thesis .
  qed
  have "2 powi ?e \<le> of_int (roundTiesToEven (x / ?u)) * ?u" using A unfolding B .
  then show ?thesis unfolding double_of_pos [OF assms(1)] .
qed

lemma double_of_mono_pos:
  assumes "0 < x" "x \<le> y"
  shows "double_of x \<le> double_of y"
proof -
  have ypos: "0 < y" using assms by linarith
  let ?px = "max (binade x - 52) (- 1074)" and ?py = "max (binade y - 52) (- 1074)"
  note bm = binade_mono [OF assms]
  show ?thesis
  proof (cases "?px = ?py")
    case True
    have "x / 2 powi ?py \<le> y / 2 powi ?py"
      using assms(2) pow2_pos [of ?py] by (simp add: divide_right_mono)
    then have "roundTiesToEven (x / 2 powi ?py) \<le> roundTiesToEven (y / 2 powi ?py)"
      by (rule rne_mono)
    then have "(of_int (roundTiesToEven (x / 2 powi ?py)) :: rat)
        \<le> of_int (roundTiesToEven (y / 2 powi ?py))"
      by (simp only: of_int_le_iff)
    then have "(of_int (roundTiesToEven (x / 2 powi ?py)) :: rat) * 2 powi ?py
        \<le> of_int (roundTiesToEven (y / 2 powi ?py)) * 2 powi ?py"
      using pow2_pos [of ?py] by (simp add: mult_right_mono)
    then show ?thesis
      unfolding double_of_pos [OF assms(1)] double_of_pos [OF ypos] True .
  next
    case False
    with bm have lt: "binade x < binade y" and n: "- 1074 \<le> binade y - 52" by auto
    have "double_of x \<le> 2 powi (binade x + 1)" by (rule double_of_upper [OF assms(1)])
    also have "\<dots> \<le> 2 powi (binade y)" using lt by (intro pow2_mono) simp
    also have "\<dots> \<le> double_of y" by (rule double_of_lower [OF ypos n])
    finally show ?thesis .
  qed
qed

lemma double_of_mono:
  assumes "x \<le> y"
  shows "double_of x \<le> double_of y"
proof -
  consider "0 < x" | "x \<le> 0" "0 \<le> y" | "y < 0" by linarith
  then show ?thesis
  proof cases
    case 1
    then show ?thesis using assms by (rule double_of_mono_pos)
  next
    case 2
    have "0 \<le> double_of (- x)" using 2(1) by (intro double_of_nonneg) simp
    then have "double_of x \<le> 0" using double_of_neg [of x] by simp
    also have "0 \<le> double_of y" using 2(2) by (rule double_of_nonneg)
    finally show ?thesis .
  next
    case 3
    then have "0 < - y" "- y \<le> - x" using assms by simp_all
    then have "double_of (- y) \<le> double_of (- x)" by (rule double_of_mono_pos)
    then show ?thesis by (simp add: double_of_neg)
  qed
qed



lemma double_below_one:
  assumes d: "double_of u = u" and u: "u < 1"
  shows "u \<le> 1 - 1 / 2 ^ 53"
proof (rule ccontr)
  assume "\<not> u \<le> 1 - 1 / 2 ^ 53"
  then have lo: "1 - 1 / 2 ^ 53 < u" by simp
  then have half: "1 / 2 \<le> u" by simp
  then have pos: "0 < u" by simp
  have "binade u = - 1"
    using half u by (intro binade_unique) (simp_all add: power_int_minus)
  then have p: "max (binade u - 52) (- 1074) = - 53" by simp
  have U: "(2::rat) powi (- 53) = 1 / 2 ^ 53" by (simp add: power_int_minus field_simps)
  define m where "m = roundTiesToEven (u / (1 / 2 ^ 53))"
  have "of_int m * (1 / 2 ^ 53) = u"
    using d unfolding double_of_pos [OF pos] p U m_def .
  then have e: "u * 2 ^ 53 = of_int m" by (simp add: field_simps)
  have "2 ^ 53 - 1 < u * 2 ^ 53" using lo by (simp add: field_simps)
  then have "(of_int (2 ^ 53 - 1) :: rat) < of_int m" unfolding e by simp
  then have a: "2 ^ 53 - 1 < m" by (simp only: of_int_less_iff)
  have "u * 2 ^ 53 < 2 ^ 53" using u by simp
  then have "(of_int m :: rat) < of_int (2 ^ 53)" unfolding e by simp
  then have "m < 2 ^ 53" by (simp only: of_int_less_iff)
  with a show False by simp
qed


declare year_search.simps [simp del]

lemma div_succ:
  fixes a k :: int
  assumes k: "0 < k"
  shows "(a + 1) div k = a div k + (if (a + 1) mod k = 0 then 1 else 0)"
proof -
  have r: "0 \<le> a mod k" "a mod k < k" using k by simp_all
  have e: "a + 1 = k * (a div k) + (a mod k + 1)" by simp
  have d: "(a + 1) div k = a div k + (a mod k + 1) div k"
    using k by (subst e, subst div_mult_self4) simp_all
  have m: "(a + 1) mod k = (a mod k + 1) mod k"
    by (subst e, subst mod_mult_self4) simp
  show ?thesis
  proof (cases "a mod k + 1 = k")
    case True
    then show ?thesis using k d m by simp
  next
    case False
    with r have lt: "a mod k + 1 < k" by simp
    then have "(a mod k + 1) div k = 0" "(a mod k + 1) mod k = a mod k + 1"
      using r by simp_all
    then show ?thesis using d m r by simp
  qed
qed

lemma mod_shift: "(y - k * c) mod k = y mod (k::int)"
proof -
  have "y - k * c = y + k * (- c)" by simp
  then show ?thesis by (simp only: mod_mult_self2)
qed

lemma step4: "((y::int) + 1 - 1969) div 4 = (y - 1969) div 4 + (if y mod 4 = 0 then 1 else 0)"
proof -
  have "(y - 1969 + 1) mod 4 = (y - 4 * 492) mod 4" by simp
  then have "(y - 1969 + 1) mod 4 = y mod 4" by (simp only: mod_shift)
  moreover have "(y - 1969 + 1) div 4 = (y - 1969) div 4 + (if (y - 1969 + 1) mod 4 = 0 then 1 else 0)"
    by (rule div_succ) simp
  ultimately show ?thesis by (simp add: algebra_simps)
qed

lemma step100: "((y::int) + 1 - 1901) div 100 = (y - 1901) div 100 + (if y mod 100 = 0 then 1 else 0)"
proof -
  have "(y - 1901 + 1) mod 100 = (y - 100 * 19) mod 100" by simp
  then have "(y - 1901 + 1) mod 100 = y mod 100" by (simp only: mod_shift)
  moreover have "(y - 1901 + 1) div 100 = (y - 1901) div 100 + (if (y - 1901 + 1) mod 100 = 0 then 1 else 0)"
    by (rule div_succ) simp
  ultimately show ?thesis by (simp add: algebra_simps)
qed

lemma step400: "((y::int) + 1 - 1601) div 400 = (y - 1601) div 400 + (if y mod 400 = 0 then 1 else 0)"
proof -
  have "(y - 1601 + 1) mod 400 = (y - 400 * 4) mod 400" by simp
  then have "(y - 1601 + 1) mod 400 = y mod 400" by (simp only: mod_shift)
  moreover have "(y - 1601 + 1) div 400 = (y - 1601) div 400 + (if (y - 1601 + 1) mod 400 = 0 then 1 else 0)"
    by (rule div_succ) simp
  ultimately show ?thesis by (simp add: algebra_simps)
qed

lemma mod100_mod4: "(y::int) mod 100 = 0 \<Longrightarrow> y mod 4 = 0"
proof -
  assume "y mod 100 = 0"
  then have "100 dvd y" by (simp add: mod_eq_0_iff_dvd)
  moreover have "(4::int) dvd 100" by simp
  ultimately have "4 dvd y" by (rule dvd_trans [rotated])
  then show ?thesis by (simp add: mod_eq_0_iff_dvd)
qed

lemma mod400_mod100: "(y::int) mod 400 = 0 \<Longrightarrow> y mod 100 = 0"
proof -
  assume "y mod 400 = 0"
  then have "400 dvd y" by (simp add: mod_eq_0_iff_dvd)
  moreover have "(100::int) dvd 400" by simp
  ultimately have "100 dvd y" by (rule dvd_trans [rotated])
  then show ?thesis by (simp add: mod_eq_0_iff_dvd)
qed

lemma DayFromYear_Suc_ifs: "DayFromYear (y + 1) = DayFromYear y +
      (365 + (if y mod 4 = 0 then 1 else 0) - (if y mod 100 = 0 then 1 else 0)
           + (if y mod 400 = 0 then 1 else 0))"
  unfolding DayFromYear_def step4 step100 step400
  by (simp only: algebra_simps)

lemma leap_ifs:
  "(B \<longrightarrow> A) \<Longrightarrow> (C \<longrightarrow> B) \<Longrightarrow>
      (365::int) + (if A then 1 else 0) - (if B then 1 else 0) + (if C then 1 else 0)
        = (if \<not> A then 365 else if \<not> B then 366 else if \<not> C then 365 else 366)"
  by (cases A; cases B; cases C; simp)

lemma DayFromYear_Suc: "DayFromYear (y + 1) = DayFromYear y + DaysInYear y"
proof -
  have "(365 + (if y mod 4 = 0 then 1 else 0) - (if y mod 100 = 0 then 1 else 0)
           + (if y mod 400 = 0 then 1 else 0)) = DaysInYear y"
    unfolding DaysInYear_def
  proof (rule leap_ifs)
    show "y mod 100 = 0 \<longrightarrow> y mod 4 = 0" by (rule impI) (rule mod100_mod4)
    show "y mod 400 = 0 \<longrightarrow> y mod 100 = 0" by (rule impI) (rule mod400_mod100)
  qed
  then show ?thesis by (simp only: DayFromYear_Suc_ifs)
qed

lemma DaysInYear_cases: "DaysInYear y = 365 \<or> DaysInYear y = 366"
  by (simp add: DaysInYear_def)

lemma DaysInYear_bounds: "365 \<le> DaysInYear y" "DaysInYear y \<le> 366"
  using DaysInYear_cases [of y] by auto

lemma DayFromYear_less_Suc: "DayFromYear y < DayFromYear (y + 1)"
  using DaysInYear_bounds(1) [of y] by (simp add: DayFromYear_Suc)

lemma DayFromYear_up:
  "y \<le> y' \<Longrightarrow> DayFromYear y + 365 * (y' - y) \<le> DayFromYear y'
      \<and> DayFromYear y' \<le> DayFromYear y + 366 * (y' - y)"
proof (induction y' rule: int_ge_induct)
  case base
  show ?case by simp
next
  case (step i)
  have "365 * (i + 1 - y) = 365 * (i - y) + 365" "366 * (i + 1 - y) = 366 * (i - y) + 366"
    by (simp_all add: algebra_simps)
  then show ?case
    using step.IH DaysInYear_bounds [of i] by (simp add: DayFromYear_Suc)
qed

lemma DayFromYear_mono: "y \<le> y' \<Longrightarrow> DayFromYear y \<le> DayFromYear y'"
proof -
  assume le: "y \<le> y'"
  then have "0 \<le> 365 * (y' - y)" by simp
  with DayFromYear_up [OF le] show ?thesis by linarith
qed

lemma DayFromYear_1970: "DayFromYear 1970 = 0"
  by (simp add: DayFromYear_def)

lemma year_search_spec:
  "DayFromYear y \<le> d \<Longrightarrow>
     DayFromYear (year_search y d) \<le> d \<and> d < DayFromYear (year_search y d + 1)"
proof (induction y d rule: year_search.induct)
  case (1 y d)
  show ?case
  proof (cases "DayFromYear (y + 1) \<le> d")
    case True
    then have "year_search y d = year_search (y + 1) d"
      by (subst year_search.simps) simp
    with "1.IH" [OF True True] show ?thesis by simp
  next
    case False
    then have "year_search y d = y"
      by (subst year_search.simps) simp
    with False "1.prems" show ?thesis by simp
  qed
qed

lemma year_estimate: "DayFromYear (1970 + (if 0 \<le> d then d div 366 else d div 365)) \<le> d"
proof (cases "0 \<le> d")
  case True
  define k where "k = d div 366"
  have k0: "0 \<le> k" using True by (simp add: k_def pos_imp_zdiv_nonneg_iff)
  have "366 * k \<le> d" unfolding k_def
    using mult_div_mod_eq [of 366 d] pos_mod_sign [of 366 d] by linarith
  moreover have "DayFromYear (1970 + k) \<le> DayFromYear 1970 + 366 * (1970 + k - 1970)"
    using DayFromYear_up [of 1970 "1970 + k"] k0 by simp
  ultimately show ?thesis using True by (simp add: DayFromYear_1970 k_def)
next
  case False
  define k where "k = d div 365"
  have k0: "k < 0" using False by (simp add: k_def neg_imp_zdiv_neg_iff)
  have "365 * k \<le> d" unfolding k_def
    using mult_div_mod_eq [of 365 d] pos_mod_sign [of 365 d] by linarith
  moreover have "DayFromYear (1970 + k) + 365 * (1970 - (1970 + k)) \<le> DayFromYear 1970"
    using DayFromYear_up [of "1970 + k" 1970] k0 by simp
  ultimately show ?thesis using False by (simp add: DayFromYear_1970 k_def)
qed

lemma YearFromDay_spec:
  "DayFromYear (YearFromDay d) \<le> d \<and> d < DayFromYear (YearFromDay d + 1)"
  unfolding YearFromDay_def by (rule year_search_spec [OF year_estimate])

lemma YearFromDay_unique:
  assumes "DayFromYear y \<le> d" and "d < DayFromYear (y + 1)"
  shows "YearFromDay d = y"
proof (rule ccontr)
  let ?Y = "YearFromDay d"
  assume ne: "?Y \<noteq> y"
  note s = YearFromDay_spec [of d]
  show False
  proof (cases "?Y < y")
    case True
    then have "DayFromYear (?Y + 1) \<le> DayFromYear y" by (intro DayFromYear_mono) simp
    with s assms show False by linarith
  next
    case False
    with ne have "y + 1 \<le> ?Y" by simp
    then have "DayFromYear (y + 1) \<le> DayFromYear ?Y" by (rule DayFromYear_mono)
    with s assms show False by linarith
  qed
qed

lemma month_cases:
  "(0::int) \<le> m \<Longrightarrow> m \<le> 11 \<Longrightarrow>
     m = 0 \<or> m = 1 \<or> m = 2 \<or> m = 3 \<or> m = 4 \<or> m = 5 \<or> m = 6 \<or> m = 7 \<or> m = 8
       \<or> m = 9 \<or> m = 10 \<or> m = 11"
  by arith

lemma DaysInMonth_bounds: "0 \<le> l \<Longrightarrow> l \<le> 1 \<Longrightarrow> 28 \<le> DaysInMonth m l \<and> DaysInMonth m l \<le> 31"
  by (simp add: DaysInMonth_def)

lemma monthStart_Suc:
  assumes "0 \<le> m" "m < 11"
  shows "monthStart (m + 1) l = monthStart m l + DaysInMonth m l"
proof -
  from assms have "m = 0 \<or> m = 1 \<or> m = 2 \<or> m = 3 \<or> m = 4 \<or> m = 5 \<or> m = 6 \<or> m = 7
      \<or> m = 8 \<or> m = 9 \<or> m = 10"
    by arith
  then show ?thesis
    by (elim disjE) (simp_all add: monthStart_def DaysInMonth_def)
qed

lemma monthStart_last: "monthStart 11 l + DaysInMonth 11 l = 365 + l"
  by (simp add: monthStart_def DaysInMonth_def)

lemma monthStart_nonneg: "0 \<le> l \<Longrightarrow> 0 \<le> monthStart m l"
  by (simp add: monthStart_def)

lemma monthStart_end:
  assumes "0 \<le> m" "m \<le> 11" and l: "0 \<le> l"
  shows "monthStart m l + DaysInMonth m l \<le> 365 + l"
proof -
  from month_cases [OF assms(1,2)] show ?thesis
    using l by (elim disjE) (simp_all add: monthStart_def DaysInMonth_def)
qed

lemma month_of_day_range:
  "0 \<le> month_of_day w l \<and> month_of_day w l \<le> 11"
  by (simp add: month_of_day_def)

lemma month_of_day_start:
  assumes "0 \<le> w" "0 \<le> l" "l \<le> 1"
  shows "monthStart (month_of_day w l) l \<le> w"
  using assms by (simp add: month_of_day_def monthStart_def)

lemma month_of_day_end:
  assumes "w < 365 + l" "0 \<le> l" "l \<le> 1"
  shows "w < monthStart (month_of_day w l) l + DaysInMonth (month_of_day w l) l"
  using assms by (simp add: month_of_day_def monthStart_def DaysInMonth_def)

lemma month_of_day_inverse:
  assumes m: "0 \<le> m" "m \<le> 11" and l: "0 \<le> l" "l \<le> 1"
    and k: "0 \<le> k" "k < DaysInMonth m l"
  shows "month_of_day (monthStart m l + k) l = m"
proof -
  from month_cases [OF m] show ?thesis
    using l k by (elim disjE) (simp_all add: month_of_day_def monthStart_def DaysInMonth_def)
qed

lemma msPerDay_pos: "0 < msPerDay"
  by (simp add: msPerDay_def)

lemma MakeDate_Day: "MakeDate (Day t) (TimeWithinDay t) = t"
  by (simp add: MakeDate_def Day_def TimeWithinDay_def)

lemma TimeWithinDay_range: "0 \<le> TimeWithinDay t \<and> TimeWithinDay t < msPerDay"
  using msPerDay_pos by (simp add: TimeWithinDay_def)

lemma Day_MakeDate:
  assumes "0 \<le> tw" "tw < msPerDay"
  shows "Day (MakeDate d tw) = d" and "TimeWithinDay (MakeDate d tw) = tw"
proof -
  have "(d * msPerDay + tw) div msPerDay = d + tw div msPerDay"
    using msPerDay_pos by (subst mult.commute, subst div_mult_self4) simp_all
  with assms show "Day (MakeDate d tw) = d"
    by (simp add: Day_def MakeDate_def)
  have "(d * msPerDay + tw) mod msPerDay = tw mod msPerDay"
    by (subst mult.commute, subst mod_mult_self4) simp
  with assms show "TimeWithinDay (MakeDate d tw) = tw"
    by (simp add: TimeWithinDay_def MakeDate_def)
qed

lemma MakeDate_plus: "MakeDate (Day t + k) (TimeWithinDay t) = t + k * msPerDay"
proof -
  have "MakeDate (Day t + k) (TimeWithinDay t) = MakeDate (Day t) (TimeWithinDay t) + k * msPerDay"
    by (simp add: MakeDate_def algebra_simps)
  then show ?thesis by (simp only: MakeDate_Day)
qed

lemma InLeapYear_eq: "InLeapYear t = DaysInYear (YearFromTime t) - 365"
  using DaysInYear_cases [of "YearFromTime t"] by (auto simp: InLeapYear_def)

lemma InLeapYear_range: "0 \<le> InLeapYear t \<and> InLeapYear t \<le> 1"
  by (simp add: InLeapYear_def)

lemma DayWithinYear_range:
  "0 \<le> DayWithinYear t \<and> DayWithinYear t < 365 + InLeapYear t"
  using YearFromDay_spec [of "Day t"]
  by (simp add: DayWithinYear_def YearFromTime_def InLeapYear_eq DayFromYear_Suc)

lemma MonthFromTime_range: "0 \<le> MonthFromTime t \<and> MonthFromTime t \<le> 11"
  unfolding MonthFromTime_def by (rule month_of_day_range)

lemma DateFromTime_range:
  "1 \<le> DateFromTime t \<and> DateFromTime t \<le> DaysInMonth (MonthFromTime t) (InLeapYear t)"
proof -
  note w = DayWithinYear_range [of t] and l = InLeapYear_range [of t]
  have "monthStart (MonthFromTime t) (InLeapYear t) \<le> DayWithinYear t"
    unfolding MonthFromTime_def using w l by (intro month_of_day_start) simp_all
  moreover have "DayWithinYear t
      < monthStart (MonthFromTime t) (InLeapYear t) + DaysInMonth (MonthFromTime t) (InLeapYear t)"
    unfolding MonthFromTime_def using w l by (intro month_of_day_end) simp_all
  ultimately show ?thesis by (simp add: DateFromTime_def)
qed

lemma month_div_mod: "(0::int) \<le> m \<Longrightarrow> m \<le> 11 \<Longrightarrow> m div 12 = 0 \<and> m mod 12 = m"
  by simp


lemma fields_of_day:
  assumes m: "0 \<le> m" "m \<le> 11"
    and dt: "1 \<le> dt" "dt \<le> DaysInMonth m (DaysInYear y - 365)"
    and day: "Day t = DayFromYear y + monthStart m (DaysInYear y - 365) + dt - 1"
  shows "YearFromTime t = y" and "MonthFromTime t = m" and "DateFromTime t = dt"
proof -
  let ?l = "DaysInYear y - 365"
  have l: "0 \<le> ?l" "?l \<le> 1" using DaysInYear_bounds [of y] by simp_all
  have s0: "0 \<le> monthStart m ?l" using l by (simp add: monthStart_nonneg)
  have e: "monthStart m ?l + DaysInMonth m ?l \<le> 365 + ?l"
    using m l by (intro monthStart_end) simp_all
  have "DayFromYear y \<le> Day t" using day s0 dt by simp
  moreover have "Day t < DayFromYear (y + 1)"
    using day e dt by (simp add: DayFromYear_Suc)
  ultimately have Y: "YearFromDay (Day t) = y" by (rule YearFromDay_unique)
  then show y: "YearFromTime t = y" by (simp add: YearFromTime_def)
  have L: "InLeapYear t = ?l" by (simp add: InLeapYear_eq y)
  have W: "DayWithinYear t = monthStart m ?l + (dt - 1)"
    using day by (simp add: DayWithinYear_def y)
  have "month_of_day (monthStart m ?l + (dt - 1)) ?l = m"
    using m l dt by (intro month_of_day_inverse) simp_all
  then show M: "MonthFromTime t = m" by (simp add: MonthFromTime_def L W)
  show "DateFromTime t = dt" by (simp add: DateFromTime_def M L W)
qed


lemma MakeDay_next_month:
  "MakeDay (YearFromTime t) (MonthFromTime t + 1) (DateFromTime t)
     = Day t + DaysInMonth (MonthFromTime t) (InLeapYear t)"
proof (cases "MonthFromTime t = 11")
  case True
  have "MakeDay (YearFromTime t) 12 (DateFromTime t)
      = DayFromYear (YearFromTime t + 1) + DateFromTime t - 1"
    by (simp add: MakeDay_def Let_def monthStart_def)
  also have "\<dots> = DayFromYear (YearFromTime t) + (365 + InLeapYear t) + DateFromTime t - 1"
    by (simp add: DayFromYear_Suc InLeapYear_eq)
  also have "\<dots> = Day t + 31"
    by (simp add: DateFromTime_def DayWithinYear_def True monthStart_def)
  finally show ?thesis by (simp add: True DaysInMonth_def)
next
  case False
  with MonthFromTime_range [of t] have m: "0 \<le> MonthFromTime t" "MonthFromTime t < 11"
    by simp_all
  then have dm: "(MonthFromTime t + 1) div 12 = 0" "(MonthFromTime t + 1) mod 12 = MonthFromTime t + 1"
    by simp_all
  have "MakeDay (YearFromTime t) (MonthFromTime t + 1) (DateFromTime t)
      = DayFromYear (YearFromTime t) + monthStart (MonthFromTime t + 1) (InLeapYear t)
          + DateFromTime t - 1"
    by (simp add: MakeDay_def Let_def dm InLeapYear_eq [symmetric])
  also have "\<dots> = Day t + DaysInMonth (MonthFromTime t) (InLeapYear t)"
    by (simp add: monthStart_Suc [OF m] DateFromTime_def DayWithinYear_def)
  finally show ?thesis .
qed

lemma setUTCMonth_next:
  "setUTCMonth t (MonthFromTime t + 1)
     = TimeClip (t + DaysInMonth (MonthFromTime t) (InLeapYear t) * msPerDay)"
  by (simp only: setUTCMonth_def MakeDay_next_month MakeDate_plus)




lemma TimeClip_later:
  assumes "- maxTime \<le> t" "t < v"
  shows "TimeClip v = (if v \<le> maxTime then Some v else None)"
proof -
  have "0 \<le> maxTime" by (simp add: maxTime_def)
  with assms show ?thesis by (auto simp: TimeClip_def)
qed





lemma toISOString_nonempty: "toISOString t \<noteq> []"
  by (simp add: toISOString_def)

lemma strict_eq_JStr: "strict_eq a (JStr x) = (a = JStr x)"
  by (cases a) simp_all

lemma stub_fetch_simps:
  "SCHEDULE_KV (stub_fetch a call w) = SCHEDULE_KV w"
  "executor_calls (stub_fetch a call w) = executor_calls w"
  "WALLET_DO (stub_fetch a call w) n
     = (if n = toLowerCase a then snd (call (WALLET_DO w n)) else WALLET_DO w n)"
  by (simp_all add: stub_fetch_def Let_def)

lemma spread_Cons: "spread a ((k, v) # p) = spread (AList.update k v a) p"
  by (simp add: spread_def)

lemma spread_Nil: "spread a [] = a"
  by (simp add: spread_def)

lemma spread_get_other: "k \<notin> fst ` set p \<Longrightarrow> js_get (spread a p) k = js_get a k"
proof (induction p arbitrary: a)
  case Nil
  show ?case by (simp add: spread_Nil)
next
  case (Cons x p)
  obtain k' v where x: "x = (k', v)" by (cases x)
  with Cons.prems have "k \<noteq> k'" "k \<notin> fst ` set p" by auto
  then show ?case
    unfolding x spread_Cons using Cons.IH [of "AList.update k' v a"]
    by (simp add: js_get_update_other)
qed

lemma findIndex_Some:
  "findIndex P xs = Some i \<Longrightarrow> i < length xs \<and> P (xs ! i) \<and> (\<forall>j<i. \<not> P (xs ! j))"
proof (induction xs arbitrary: i)
  case Nil
  then show ?case by simp
next
  case (Cons x xs)
  show ?case
  proof (cases "P x")
    case True
    with Cons.prems show ?thesis by simp
  next
    case False
    with Cons.prems obtain i' where i: "i = Suc i'" and f: "findIndex P xs = Some i'"
      by auto
    from Cons.IH [OF f] False show ?thesis
      unfolding i by (auto simp: less_Suc_eq_0_disj)
  qed
qed

lemma findIndex_find:
  "findIndex P xs = (case find P xs of None \<Rightarrow> None | Some x \<Rightarrow> findIndex P xs)"
  "find P xs = (case findIndex P xs of None \<Rightarrow> None | Some i \<Rightarrow> Some (xs ! i))"
  by (induction xs) (auto split: option.splits)

lemma find_update_first:
  assumes "i < length xs" "\<forall>j<i. \<not> P (xs ! j)" "P y"
  shows "find P (xs[i := y]) = Some y"
  using assms
proof (induction xs arbitrary: i)
  case Nil
  then show ?case by simp
next
  case (Cons x xs)
  show ?case
  proof (cases i)
    case 0
    with Cons.prems show ?thesis by simp
  next
    case (Suc i')
    with Cons.prems have "\<not> P x" by auto
    moreover have "find P (xs[i' := y]) = Some y"
      using Cons.prems Suc by (intro Cons.IH) auto
    ultimately show ?thesis by (simp add: Suc)
  qed
qed

lemma find_update_other:
  assumes "\<not> P (xs ! i)" "\<not> P y"
  shows "find P (xs[i := y]) = find P xs"
  using assms
proof (induction xs arbitrary: i)
  case Nil
  then show ?case by simp
next
  case (Cons x xs)
  then show ?case by (cases i) auto
qed

text \<open>What \<open>POST /update-schedule\<close> does to the shard, for an object patch.\<close>

lemma post_update_schedule_shard:
  "snd (post_update_schedule a [(''scheduleId'', JStr sid), (''patch'', JObj p)] st) =
     (if a = [] \<or> sid = [] then st
      else case findIndex (\<lambda>sch. strict_eq (js_get sch ''id'') (JStr sid)) (schedules st) of
             None \<Rightarrow> st
           | Some idx \<Rightarrow> st\<lparr>schedules := (schedules st)[idx := spread (schedules st ! idx) p]\<rparr>)"
  by (simp add: post_update_schedule_def updateSchedule_def js_get_def Let_def
      split: option.split)

lemma post_update_schedule_keeps:
  "transactions (snd (post_update_schedule a [(''scheduleId'', JStr sid), (''patch'', JObj p)] st))
     = transactions st"
  by (simp add: post_update_schedule_shard split: option.split)

lemma patch_own_schedule:
  assumes "a \<noteq> []" "sid \<noteq> []" and sch: "schedule_of sid st = Some sch"
    and p: "''id'' \<notin> fst ` set p"
  shows "schedule_of sid
           (snd (post_update_schedule a [(''scheduleId'', JStr sid), (''patch'', JObj p)] st))
         = Some (spread sch p)"
proof -
  let ?P = "\<lambda>sch. strict_eq (js_get sch ''id'') (JStr sid)"
  from sch obtain idx where idx: "findIndex ?P (schedules st) = Some idx"
    and e: "sch = schedules st ! idx"
    unfolding schedule_of_def by (subst (asm) findIndex_find(2)) (auto split: option.splits)
  note f = findIndex_Some [OF idx]
  have "?P (spread sch p)"
    using f p unfolding e by (simp add: spread_get_other)
  then have "find ?P ((schedules st)[idx := spread sch p]) = Some (spread sch p)"
    using f by (intro find_update_first) simp_all
  then show ?thesis
    using assms(1,2) by (simp add: schedule_of_def post_update_schedule_shard idx e)
qed

lemma patch_other_schedule:
  assumes ne: "sid' \<noteq> sid" and p: "''id'' \<notin> fst ` set p"
  shows "schedule_of sid
           (snd (post_update_schedule a [(''scheduleId'', JStr sid'), (''patch'', JObj p)] st))
         = schedule_of sid st"
proof (cases "findIndex (\<lambda>sch. strict_eq (js_get sch ''id'') (JStr sid')) (schedules st)")
  case None
  then show ?thesis by (simp add: post_update_schedule_shard)
next
  case (Some idx)
  note f = findIndex_Some [OF Some]
  let ?old = "schedules st ! idx"
  have old: "js_get ?old ''id'' = JStr sid'" using f by (simp add: strict_eq_JStr)
  then have new: "js_get (spread ?old p) ''id'' = JStr sid'"
    using p by (simp add: spread_get_other)
  have "find (\<lambda>sch. strict_eq (js_get sch ''id'') (JStr sid))
          ((schedules st)[idx := spread ?old p])
        = find (\<lambda>sch. strict_eq (js_get sch ''id'') (JStr sid)) (schedules st)"
    using ne old new by (intro find_update_other) (simp_all add: strict_eq_JStr)
  then show ?thesis
    by (simp add: schedule_of_def post_update_schedule_shard Some)
qed

text \<open>What \<open>POST /store-transaction\<close> does to the shard, for a complete record.\<close>

lemma js_or_truthy: "truthy a \<Longrightarrow> js_or a b = a"
  by (simp add: js_or_def)

lemma post_store_transaction_shard:
  assumes a: "a \<noteq> []" and t: "truthy (js_get tx ''address'')" "truthy (js_get tx ''amount'')"
    "truthy (js_get tx ''intent'')" "truthy (js_get tx ''start_date'')"
  shows "\<exists>entry.
       snd (post_store_transaction rnd t a tx st) = st\<lparr>transactions := transactions st @ [entry]\<rparr>
     \<and> js_get entry ''status'' = js_or (js_get tx ''status'') (JStr ''completed'')
     \<and> js_get entry ''txHash'' = js_or (js_or (js_get tx ''txHash'') JNull) JNull
     \<and> js_get entry ''note'' = js_or (js_or (js_get tx ''note'') JNull) (JStr ''NA'')
     \<and> map_of entry ''scheduleId'' = None"
proof -
  have n: "js_or (js_or (js_or (js_get tx ''address'') (js_get tx ''recipient'')) (js_get tx ''to''))
             JNull = js_get tx ''address''"
    "js_or (js_or (js_get tx ''intent'') (js_get tx ''type'')) (JStr ''recurring'')
       = js_get tx ''intent''"
    "js_or (js_get tx ''start_date'') (JStr (before_T (toISOString t))) = js_get tx ''start_date''"
    using t by (simp_all add: js_or_truthy)
  have c: "(\<not> truthy (js_get tx ''address'') \<or> \<not> truthy (js_get tx ''amount'')
      \<or> \<not> truthy (js_get tx ''intent'') \<or> \<not> truthy (js_get tx ''start_date'')) = False"
    using t by simp
  have "snd (post_store_transaction rnd t a tx st) = st\<lparr>transactions := transactions st @
      [[(''id'', JStr (uuidv4 rnd)),
        (''name'', js_or (js_get tx ''name'') JNull),
        (''type'', js_get tx ''intent''),
        (''address'', js_get tx ''address''),
        (''amount'', js_get tx ''amount''),
        (''currency'', js_or (js_get tx ''currency'') (JStr ''USDC'')),
        (''start_date'', js_get tx ''start_date''),
        (''time_of_day'', js_or (js_get tx ''time_of_day'') JNull),
        (''interval'', js_or (js_get tx ''interval'') JNull),
        (''times'', js_or (js_get tx ''times'') JNull),
        (''note'', js_or (js_or (js_get tx ''note'') JNull) (JStr ''NA'')),
        (''status'', js_or (js_get tx ''status'') (JStr ''completed'')),
        (''txHash'', js_or (js_or (js_get tx ''txHash'') JNull) JNull),
        (''timestamp'', JStr (toISOString t))]]\<rparr>"
    unfolding post_store_transaction_def storeTransaction_def Let_def n c
    using a by (simp only: if_False snd_conv)
  then show ?thesis
    by (intro exI conjI, assumption) (simp_all add: js_get_def)
qed

lemma post_store_transaction_keeps:
  "schedules (snd (post_store_transaction rnd t a tx st)) = schedules st"
  by (simp add: post_store_transaction_def storeTransaction_def Let_def)

lemma schedule_of_store:
  "schedule_of sid (snd (post_store_transaction rnd t a tx st)) = schedule_of sid st"
  by (simp add: schedule_of_def post_store_transaction_keeps)

lemma js_or_JNull: "js_or (js_or x JNull) JNull = js_or x JNull"
  by (simp add: js_or_def)

lemma fire_succeeded_transactions:
  assumes a: "s_userAddress s \<noteq> []" and r: "truthy (s_recipient s)" and m: "truthy (s_amount s)"
  shows "\<exists>entry.
       transactions (WALLET_DO (fire_succeeded env s rj w0) (toLowerCase (s_userAddress s)))
         = transactions (WALLET_DO w0 (toLowerCase (s_userAddress s))) @ [entry]
     \<and> js_get entry ''status'' = JStr ''completed''
     \<and> js_get entry ''txHash'' = js_or (js_member rj ''txHash'') JNull
     \<and> map_of entry ''scheduleId'' = None"
proof -
  let ?name = "toLowerCase (s_userAddress s)"
  let ?tx = "[(''name'', JStr ''Recurring Payment''),
             (''intent'', JStr ''recurring''),
             (''amount'', s_amount s),
             (''note'', js_or (s_note s) (JStr '''')),
             (''status'', JStr ''completed''),
             (''recipient'', s_recipient s),
             (''start_date'', JStr (toISOString (record_time env))),
             (''txHash'', js_or (js_member rj ''txHash'') JNull),
             (''address'', s_recipient s)]"
  have g: "truthy (js_get ?tx ''address'')" "truthy (js_get ?tx ''amount'')"
    "truthy (js_get ?tx ''intent'')" "truthy (js_get ?tx ''start_date'')"
    using r m by (simp_all add: js_get_def toISOString_nonempty)
  from post_store_transaction_shard [OF a g, of "shard_rnd env" "shard_time env" "WALLET_DO w0 ?name"]
  obtain entry where e: "snd (post_store_transaction (shard_rnd env) (shard_time env)
        (s_userAddress s) ?tx (WALLET_DO w0 ?name))
      = (WALLET_DO w0 ?name)\<lparr>transactions := transactions (WALLET_DO w0 ?name) @ [entry]\<rparr>"
    and st: "js_get entry ''status'' = js_or (js_get ?tx ''status'') (JStr ''completed'')"
    and h: "js_get entry ''txHash'' = js_or (js_or (js_get ?tx ''txHash'') JNull) JNull"
    and n: "map_of entry ''scheduleId'' = None"
    by blast
  have "transactions (WALLET_DO (fire_succeeded env s rj w0) ?name)
      = transactions (WALLET_DO w0 ?name) @ [entry]"
    unfolding fire_succeeded_def Let_def
    by (simp add: stub_fetch_simps post_update_schedule_keeps e split: sum.split)
  moreover have "js_get entry ''status'' = JStr ''completed''"
    unfolding st by (simp add: js_get_def js_or_def)
  moreover have "js_get entry ''txHash'' = js_or (js_member rj ''txHash'') JNull"
    unfolding h by (simp add: js_get_def js_or_JNull)
  ultimately show ?thesis using n by blast
qed

lemma fire_failed_transactions:
  assumes a: "s_userAddress s \<noteq> []" and r: "truthy (s_recipient s)" and m: "truthy (s_amount s)"
  shows "\<exists>entry.
       transactions (WALLET_DO (fire_failed env s resp w0) (toLowerCase (s_userAddress s)))
         = transactions (WALLET_DO w0 (toLowerCase (s_userAddress s))) @ [entry]
     \<and> js_get entry ''status'' = JStr ''failed''
     \<and> js_get entry ''note''
         = js_or (js_and (respJson resp) (js_member (respJson resp) ''error''))
             (JStr (''backend error: '' @ Number_toString (resp_status_of resp)))
     \<and> truthy (js_get entry ''note'')"
proof -
  let ?name = "toLowerCase (s_userAddress s)"
  let ?note = "js_or (js_and (respJson resp) (js_member (respJson resp) ''error''))
                 (JStr (''backend error: '' @ Number_toString (resp_status_of resp)))"
  let ?tx = "[(''name'', JStr ''Recurring Payment''),
             (''intent'', JStr ''recurring''),
             (''amount'', s_amount s),
             (''note'', ?note),
             (''status'', JStr ''failed''),
             (''recipient'', s_recipient s),
             (''start_date'', JStr (toISOString (record_time env))),
             (''txHash'', JNull),
             (''address'', s_recipient s)]"
  have g: "truthy (js_get ?tx ''address'')" "truthy (js_get ?tx ''amount'')"
    "truthy (js_get ?tx ''intent'')" "truthy (js_get ?tx ''start_date'')"
    using r m by (simp_all add: js_get_def toISOString_nonempty)
  from post_store_transaction_shard [OF a g, of "shard_rnd env" "shard_time env" "WALLET_DO w0 ?name"]
  obtain entry where e: "snd (post_store_transaction (shard_rnd env) (shard_time env)
        (s_userAddress s) ?tx (WALLET_DO w0 ?name))
      = (WALLET_DO w0 ?name)\<lparr>transactions := transactions (WALLET_DO w0 ?name) @ [entry]\<rparr>"
    and st: "js_get entry ''status'' = js_or (js_get ?tx ''status'') (JStr ''completed'')"
    and nt: "js_get entry ''note'' = js_or (js_or (js_get ?tx ''note'') JNull) (JStr ''NA'')"
    by blast
  have tn: "truthy ?note" by (simp add: js_or_def)
  have "transactions (WALLET_DO (fire_failed env s resp w0) ?name)
      = transactions (WALLET_DO w0 ?name) @ [entry]"
    unfolding fire_failed_def Let_def
    by (simp add: stub_fetch_simps post_update_schedule_keeps e [unfolded append.simps])
  moreover have "js_get entry ''status'' = JStr ''failed''"
    unfolding st by (simp add: js_get_def js_or_def)
  moreover have "js_get entry ''note'' = ?note"
    unfolding nt using tn by (simp add: js_get_def js_or_truthy)
  ultimately show ?thesis using tn by simp
qed

lemma fire_failed_index:
  "SCHEDULE_KV (fire_failed env s resp w0)
     = AList.update (s_scheduleId s) (s\<lparr>s_nextRun := Some (retry_time env + 600 * 1000)\<rparr>)
         (SCHEDULE_KV w0)"
  unfolding fire_failed_def Let_def by (simp add: stub_fetch_simps)

lemma fire_failed_schedule:
  assumes a: "s_userAddress s \<noteq> []" and sid: "s_scheduleId s \<noteq> []"
    and sch: "schedule_of (s_scheduleId s) (WALLET_DO w0 (toLowerCase (s_userAddress s))) = Some sch"
  shows "schedule_of (s_scheduleId s)
           (WALLET_DO (fire_failed env s resp w0) (toLowerCase (s_userAddress s)))
         = Some (AList.update ''nextRun'' (JStr (toISOString (retry_time env + 600 * 1000))) sch)"
proof -
  let ?name = "toLowerCase (s_userAddress s)"
  let ?p = "[(''nextRun'', JStr (toISOString (retry_time env + 600 * 1000)))]"
  have p: "''id'' \<notin> fst ` set ?p" by simp
  have "schedule_of (s_scheduleId s)
          (snd (post_update_schedule (s_userAddress s)
                  [(''scheduleId'', JStr (s_scheduleId s)), (''patch'', JObj ?p)] st))
        = Some (spread sch ?p)"
    if "schedule_of (s_scheduleId s) st = Some sch" for st
    using a sid that p by (rule patch_own_schedule)
  then show ?thesis
    unfolding fire_failed_def Let_def
    by (simp add: stub_fetch_simps schedule_of_store sch spread_Cons spread_Nil)
qed

lemma index_keys_match_update:
  "index_keys_match kv \<Longrightarrow> s_scheduleId e = k \<Longrightarrow> index_keys_match (AList.update k e kv)"
  by (induction kv) (auto simp: index_keys_match_def)

lemma index_keys_match_delete:
  "index_keys_match kv \<Longrightarrow> index_keys_match (AList.delete k kv)"
  by (induction kv) (auto simp: index_keys_match_def)

lemma index_keys_match_entry:
  "index_keys_match kv \<Longrightarrow> (k, e) \<in> set kv \<Longrightarrow> s_scheduleId e = k"
  by (auto simp: index_keys_match_def list_all_iff)

text \<open>What a fire does to the index, the log of executor calls and other schedules.\<close>

lemma fire_succeeded_calls: "executor_calls (fire_succeeded env s rj w0) = executor_calls w0"
  unfolding fire_succeeded_def Let_def
  by (simp add: stub_fetch_simps split: sum.split)

lemma fire_failed_calls: "executor_calls (fire_failed env s resp w0) = executor_calls w0"
  unfolding fire_failed_def Let_def by (simp add: stub_fetch_simps)

lemma fire_succeeded_index_eq:
  "SCHEDULE_KV (fire_succeeded env s rj w0) =
     (case incrementNextRunIso (s_nextRun s) (s_interval s) (s_intervalMs s) of
        Inl err \<Rightarrow> SCHEDULE_KV w0
      | Inr nextRun \<Rightarrow>
          (let times_remaining =
                 (case s_times_remaining s of None \<Rightarrow> None | Some n \<Rightarrow> Some (n - 1))
           in if times_remaining \<noteq> None \<and> the times_remaining \<le> 0
              then AList.delete (s_scheduleId s) (SCHEDULE_KV w0)
              else AList.update (s_scheduleId s)
                     (s\<lparr>s_times_remaining := times_remaining, s_nextRun := Some nextRun\<rparr>)
                     (SCHEDULE_KV w0)))"
  unfolding fire_succeeded_def Let_def
  by (simp add: stub_fetch_simps split: sum.split)

lemma fire_succeeded_index:
  "SCHEDULE_KV (fire_succeeded env s rj w0) = SCHEDULE_KV w0
   \<or> SCHEDULE_KV (fire_succeeded env s rj w0) = AList.delete (s_scheduleId s) (SCHEDULE_KV w0)
   \<or> (\<exists>s'. s_scheduleId s' = s_scheduleId s
          \<and> SCHEDULE_KV (fire_succeeded env s rj w0)
              = AList.update (s_scheduleId s) s' (SCHEDULE_KV w0))"
proof (cases "incrementNextRunIso (s_nextRun s) (s_interval s) (s_intervalMs s)")
  case (Inl err)
  then show ?thesis by (simp add: fire_succeeded_index_eq)
next
  case (Inr nextRun)
  let ?tr = "case s_times_remaining s of None \<Rightarrow> None | Some n \<Rightarrow> Some (n - 1)"
  let ?s' = "s\<lparr>s_times_remaining := ?tr, s_nextRun := Some nextRun\<rparr>"
  show ?thesis
  proof (cases "?tr \<noteq> None \<and> the ?tr \<le> 0")
    case True
    then have "SCHEDULE_KV (fire_succeeded env s rj w0)
        = AList.delete (s_scheduleId s) (SCHEDULE_KV w0)"
      unfolding fire_succeeded_index_eq Inr Let_def sum.case by (rule if_P)
    then show ?thesis by blast
  next
    case False
    then have "SCHEDULE_KV (fire_succeeded env s rj w0)
        = AList.update (s_scheduleId s) ?s' (SCHEDULE_KV w0)"
      unfolding fire_succeeded_index_eq Inr Let_def sum.case by (rule if_not_P)
    moreover have "s_scheduleId ?s' = s_scheduleId s" by simp
    ultimately show ?thesis by blast
  qed
qed

lemma fire_succeeded_other_schedule:
  assumes "s_scheduleId s \<noteq> sid"
  shows "schedule_of sid (WALLET_DO (fire_succeeded env s rj w0) n) = schedule_of sid (WALLET_DO w0 n)"
  unfolding fire_succeeded_def Let_def using assms
  by (simp add: stub_fetch_simps patch_other_schedule schedule_of_store split: sum.split)

lemma fire_failed_other_schedule:
  assumes "s_scheduleId s \<noteq> sid"
  shows "schedule_of sid (WALLET_DO (fire_failed env s resp w0) n) = schedule_of sid (WALLET_DO w0 n)"
  unfolding fire_failed_def Let_def using assms
  by (simp add: stub_fetch_simps patch_other_schedule schedule_of_store)

lemma process_entry_cases:
  "process_entry now env s w = w
   \<or> process_entry now env s w
       = fire_succeeded env s (respJson (outcome env))
           (w\<lparr>executor_calls := executor_calls w @ [s_scheduleId s]\<rparr>)
   \<or> process_entry now env s w
       = fire_failed env s (outcome env) (w\<lparr>executor_calls := executor_calls w @ [s_scheduleId s]\<rparr>)"
  by (simp add: process_entry_def Let_def split: option.split)

lemma process_entry_other:
  assumes ne: "s_scheduleId s \<noteq> sid"
  shows "map_of (SCHEDULE_KV (process_entry now env s w)) sid = map_of (SCHEDULE_KV w) sid"
    and "schedule_of sid (WALLET_DO (process_entry now env s w) n) = schedule_of sid (WALLET_DO w n)"
    and "\<exists>cs. executor_calls (process_entry now env s w) = executor_calls w @ cs \<and> sid \<notin> set cs"
    and "index_keys_match (SCHEDULE_KV w)
           \<Longrightarrow> index_keys_match (SCHEDULE_KV (process_entry now env s w))"
proof -
  let ?w0 = "w\<lparr>executor_calls := executor_calls w @ [s_scheduleId s]\<rparr>"
  let ?w' = "process_entry now env s w"
  have kv0: "SCHEDULE_KV ?w0 = SCHEDULE_KV w" by simp
  have fk: "SCHEDULE_KV (fire_failed env s resp ?w0)
      = AList.update (s_scheduleId s) (s\<lparr>s_nextRun := Some (retry_time env + 600 * 1000)\<rparr>)
          (SCHEDULE_KV w)" for resp
    by (simp add: fire_failed_index)
  note sk = fire_succeeded_index [of env s "respJson (outcome env)" ?w0, unfolded kv0]
  show "map_of (SCHEDULE_KV ?w') sid = map_of (SCHEDULE_KV w) sid"
    using process_entry_cases [of now env s w] sk ne
    by (auto simp: fk update_conv' delete_conv')
  show "schedule_of sid (WALLET_DO ?w' n) = schedule_of sid (WALLET_DO w n)"
    using process_entry_cases [of now env s w]
    by (auto simp: fire_succeeded_other_schedule [OF ne] fire_failed_other_schedule [OF ne])
  show "\<exists>cs. executor_calls ?w' = executor_calls w @ cs \<and> sid \<notin> set cs"
  proof -
    from process_entry_cases [of now env s w]
    have "executor_calls ?w' = executor_calls w @ []
        \<or> executor_calls ?w' = executor_calls w @ [s_scheduleId s]"
      by (auto simp: fire_succeeded_calls fire_failed_calls)
    with ne show ?thesis by (elim disjE) (rule exI, rule conjI, assumption, simp)+
  qed
  show "index_keys_match (SCHEDULE_KV ?w')" if "index_keys_match (SCHEDULE_KV w)"
    using process_entry_cases [of now env s w] sk that
    by (auto simp: fk index_keys_match_update index_keys_match_delete)
qed

lemma foldl_process_other:
  assumes "\<forall>s \<in> set es. s_scheduleId s \<noteq> sid"
  shows "map_of (SCHEDULE_KV (foldl (\<lambda>w' s. process_entry now (env s) s w') w es)) sid
           = map_of (SCHEDULE_KV w) sid"
    and "schedule_of sid (WALLET_DO (foldl (\<lambda>w' s. process_entry now (env s) s w') w es) n)
           = schedule_of sid (WALLET_DO w n)"
    and "\<exists>cs. executor_calls (foldl (\<lambda>w' s. process_entry now (env s) s w') w es)
               = executor_calls w @ cs \<and> sid \<notin> set cs"
  using assms
proof (induction es arbitrary: w)
  case Nil
  {
    case 1 show ?case by simp
  next
    case 2 show ?case by simp
  next
    case 3 show ?case by simp
  }
next
  case (Cons e es)
  {
    case 1
    then have ne: "s_scheduleId e \<noteq> sid" and rest: "\<forall>s \<in> set es. s_scheduleId s \<noteq> sid"
      by simp_all
    show ?case
      using Cons.IH(1) [OF rest, of "process_entry now (env e) e w"] process_entry_other(1) [OF ne]
      by simp
  next
    case 2
    then have ne: "s_scheduleId e \<noteq> sid" and rest: "\<forall>s \<in> set es. s_scheduleId s \<noteq> sid"
      by simp_all
    show ?case
      using Cons.IH(2) [OF rest, of "process_entry now (env e) e w"] process_entry_other(2) [OF ne]
      by simp
  next
    case 3
    then have ne: "s_scheduleId e \<noteq> sid" and rest: "\<forall>s \<in> set es. s_scheduleId s \<noteq> sid"
      by simp_all
    from process_entry_other(3) [OF ne, of now "env e" w] obtain c1
      where c1: "executor_calls (process_entry now (env e) e w) = executor_calls w @ c1"
        "sid \<notin> set c1"
      by blast
    from Cons.IH(3) [OF rest, of "process_entry now (env e) e w"] obtain c2
      where c2: "executor_calls (foldl (\<lambda>w' s. process_entry now (env s) s w')
            (process_entry now (env e) e w) es)
          = executor_calls (process_entry now (env e) e w) @ c2" "sid \<notin> set c2"
      by blast
    show ?case
      by (rule exI [of _ "c1 @ c2"]) (simp add: c1 c2)
  }
qed

lemma foldl_process_keys:
  "index_keys_match (SCHEDULE_KV w) \<Longrightarrow>
     index_keys_match (SCHEDULE_KV (foldl (\<lambda>w' s. process_entry now (env s) s w') w es))"
proof (induction es arbitrary: w)
  case Nil
  then show ?case by simp
next
  case (Cons e es)
  have "index_keys_match (SCHEDULE_KV (process_entry now (env e) e w))"
  proof -
    let ?w0 = "w\<lparr>executor_calls := executor_calls w @ [s_scheduleId e]\<rparr>"
    have kv0: "SCHEDULE_KV ?w0 = SCHEDULE_KV w" by simp
    note sk = fire_succeeded_index [of "env e" e "respJson (outcome (env e))" ?w0, unfolded kv0]
    show ?thesis
      using process_entry_cases [of now "env e" e w] sk Cons.prems
      by (auto simp: fire_failed_index index_keys_match_update index_keys_match_delete)
  qed
  from Cons.IH [OF this] show ?case by simp
qed

lemma processDueSchedules_foldl:
  "processDueSchedules now env w
     = foldl (\<lambda>w' s. process_entry now (env s) s w') w (map snd (SCHEDULE_KV w))"
  by (simp add: processDueSchedules_def Let_def)

lemma fire_succeeded_retires:
  assumes last: "s_times_remaining s = Some 1"
    and adv: "incrementNextRunIso (s_nextRun s) (s_interval s) (s_intervalMs s) = Inr nextRun"
    and a: "s_userAddress s \<noteq> []" and sid: "s_scheduleId s \<noteq> []"
    and sch: "schedule_of (s_scheduleId s) (WALLET_DO w0 (toLowerCase (s_userAddress s))) = Some sch"
  shows "SCHEDULE_KV (fire_succeeded env s rj w0) = AList.delete (s_scheduleId s) (SCHEDULE_KV w0)"
    and "schedule_of (s_scheduleId s)
           (WALLET_DO (fire_succeeded env s rj w0) (toLowerCase (s_userAddress s)))
         = Some (AList.update ''times_remaining'' (JNum 0)
                   (AList.update ''active'' (JBool False) sch))"
proof -
  show "SCHEDULE_KV (fire_succeeded env s rj w0) = AList.delete (s_scheduleId s) (SCHEDULE_KV w0)"
    by (simp add: fire_succeeded_index_eq adv last)
  let ?p = "[(''active'', JBool False), (''times_remaining'', JNum 0)]"
  have p: "''id'' \<notin> fst ` set ?p" by simp
  have "schedule_of (s_scheduleId s)
          (snd (post_update_schedule (s_userAddress s)
                  [(''scheduleId'', JStr (s_scheduleId s)), (''patch'', JObj ?p)] st))
        = Some (spread sch ?p)"
    if "schedule_of (s_scheduleId s) st = Some sch" for st
    using a sid that p by (rule patch_own_schedule)
  then show "schedule_of (s_scheduleId s)
           (WALLET_DO (fire_succeeded env s rj w0) (toLowerCase (s_userAddress s)))
         = Some (AList.update ''times_remaining'' (JNum 0)
                   (AList.update ''active'' (JBool False) sch))"
    unfolding fire_succeeded_def Let_def
    by (simp add: stub_fetch_simps schedule_of_store sch spread_Cons spread_Nil adv last)
qed

lemma snapshot_without:
  assumes "map_of kv sid = None" and "index_keys_match kv"
  shows "\<forall>s \<in> set (map snd kv). s_scheduleId s \<noteq> sid"
proof
  fix s
  assume "s \<in> set (map snd kv)"
  then obtain k where ks: "(k, s) \<in> set kv" by auto
  with assms(2) have "s_scheduleId s = k" by (rule index_keys_match_entry)
  moreover have "k \<noteq> sid"
    using ks assms(1) by (force simp: map_of_eq_None_iff)
  ultimately show "s_scheduleId s \<noteq> sid" by simp
qed

lemma tick_without:
  assumes none: "map_of (SCHEDULE_KV w) sid = None" and keys: "index_keys_match (SCHEDULE_KV w)"
  shows "map_of (SCHEDULE_KV (processDueSchedules now env w)) sid = None"
    and "index_keys_match (SCHEDULE_KV (processDueSchedules now env w))"
    and "schedule_of sid (WALLET_DO (processDueSchedules now env w) n)
           = schedule_of sid (WALLET_DO w n)"
    and "\<exists>cs. executor_calls (processDueSchedules now env w) = executor_calls w @ cs
           \<and> sid \<notin> set cs"
proof -
  note o = snapshot_without [OF none keys]
  show "map_of (SCHEDULE_KV (processDueSchedules now env w)) sid = None"
    unfolding processDueSchedules_foldl using foldl_process_other(1) [OF o] none by simp
  show "index_keys_match (SCHEDULE_KV (processDueSchedules now env w))"
    unfolding processDueSchedules_foldl using keys by (rule foldl_process_keys)
  show "schedule_of sid (WALLET_DO (processDueSchedules now env w) n)
      = schedule_of sid (WALLET_DO w n)"
    unfolding processDueSchedules_foldl by (rule foldl_process_other(2) [OF o])
  show "\<exists>cs. executor_calls (processDueSchedules now env w) = executor_calls w @ cs
      \<and> sid \<notin> set cs"
    unfolding processDueSchedules_foldl by (rule foldl_process_other(3) [OF o])
qed

lemma run_ticks_without:
  assumes "map_of (SCHEDULE_KV w) sid = None" and "index_keys_match (SCHEDULE_KV w)"
  shows "map_of (SCHEDULE_KV (run_ticks ticks w)) sid = None
     \<and> schedule_of sid (WALLET_DO (run_ticks ticks w) n) = schedule_of sid (WALLET_DO w n)
     \<and> (\<exists>cs. executor_calls (run_ticks ticks w) = executor_calls w @ cs \<and> sid \<notin> set cs)"
  using assms
proof (induction ticks arbitrary: w)
  case Nil
  then show ?case by simp
next
  case (Cons tick ticks)
  obtain now env where tick: "tick = (now, env)" by (cases tick)
  let ?w1 = "processDueSchedules now env w"
  note t = tick_without [OF Cons.prems, of now env]
  from t(4) obtain c1 where c1: "executor_calls ?w1 = executor_calls w @ c1" "sid \<notin> set c1"
    by blast
  from Cons.IH [OF t(1) t(2)] obtain c2
    where ih: "map_of (SCHEDULE_KV (run_ticks ticks ?w1)) sid = None"
      "schedule_of sid (WALLET_DO (run_ticks ticks ?w1) n) = schedule_of sid (WALLET_DO ?w1 n)"
      "executor_calls (run_ticks ticks ?w1) = executor_calls ?w1 @ c2" "sid \<notin> set c2"
    by blast
  have "executor_calls (run_ticks ticks ?w1) = executor_calls w @ (c1 @ c2)"
    "sid \<notin> set (c1 @ c2)"
    using c1 ih(3,4) by simp_all
  then have "\<exists>cs. executor_calls (run_ticks ticks ?w1) = executor_calls w @ cs \<and> sid \<notin> set cs"
    by blast
  with ih(1,2) t(3) [of n] show ?case by (simp add: tick)
qed

text \<open>
  The tick in which the last fire of a schedule succeeds, and every tick after
  it, when the advanced \<open>nextRun\<close> is a valid date: the index entry is
  deleted, the shard schedule is patched to \<open>active = false\<close> and
  \<open>times_remaining = 0\<close>, and no later tick finds an entry or calls the executor
  for the schedule.
\<close>

lemma last_fire_retires_schedule:
  assumes keys: "index_keys_match (SCHEDULE_KV w)" and dist: "distinct (map fst (SCHEDULE_KV w))"
    and entry: "map_of (SCHEDULE_KV w) sid = Some s" and sid: "sid \<noteq> []"
    and due: "s_nextRun s = Some nextRunMs" "nextRunMs \<le> now"
    and ok: "fire_ok (outcome (env s))"
    and last: "s_times_remaining s = Some 1"
    and adv: "incrementNextRunIso (s_nextRun s) (s_interval s) (s_intervalMs s) = Inr nextRun"
    and user: "s_userAddress s \<noteq> []"
    and sch: "schedule_of sid (WALLET_DO w (toLowerCase (s_userAddress s))) = Some sch"
  shows "\<exists>sch' cs.
       map_of (SCHEDULE_KV (processDueSchedules now env w)) sid = None
     \<and> schedule_of sid (WALLET_DO (processDueSchedules now env w) (toLowerCase (s_userAddress s)))
         = Some sch'
     \<and> js_get sch' ''active'' = JBool False
     \<and> js_get sch' ''times_remaining'' = JNum 0
     \<and> map_of (SCHEDULE_KV (run_ticks ticks (processDueSchedules now env w))) sid = None
     \<and> schedule_of sid (WALLET_DO (run_ticks ticks (processDueSchedules now env w))
           (toLowerCase (s_userAddress s))) = Some sch'
     \<and> executor_calls (run_ticks ticks (processDueSchedules now env w))
         = executor_calls (processDueSchedules now env w) @ cs
     \<and> sid \<notin> set cs"
proof -
  let ?name = "toLowerCase (s_userAddress s)"
  let ?f = "\<lambda>w' s. process_entry now (env s) s w'"
  from entry have "(sid, s) \<in> set (SCHEDULE_KV w)" by (rule map_of_SomeD)
  then obtain kv1 kv2 where kv: "SCHEDULE_KV w = kv1 @ (sid, s) # kv2"
    by (auto dest: split_list)
  have id: "s_scheduleId s = sid"
    using keys \<open>(sid, s) \<in> set (SCHEDULE_KV w)\<close> by (rule index_keys_match_entry)
  have out: "sid \<notin> fst ` set kv1" "sid \<notin> fst ` set kv2"
    using dist unfolding kv by auto
  have o1: "\<forall>e \<in> set (map snd kv1). s_scheduleId e \<noteq> sid"
  proof
    fix e assume "e \<in> set (map snd kv1)"
    then obtain k where ke: "(k, e) \<in> set kv1" by auto
    then have "(k, e) \<in> set (SCHEDULE_KV w)" by (simp add: kv)
    with keys have "s_scheduleId e = k" by (rule index_keys_match_entry)
    moreover have "k \<noteq> sid" using ke out(1) by force
    ultimately show "s_scheduleId e \<noteq> sid" by simp
  qed
  have o2: "\<forall>e \<in> set (map snd kv2). s_scheduleId e \<noteq> sid"
  proof
    fix e assume "e \<in> set (map snd kv2)"
    then obtain k where ke: "(k, e) \<in> set kv2" by auto
    then have "(k, e) \<in> set (SCHEDULE_KV w)" by (simp add: kv)
    with keys have "s_scheduleId e = k" by (rule index_keys_match_entry)
    moreover have "k \<noteq> sid" using ke out(2) by force
    ultimately show "s_scheduleId e \<noteq> sid" by simp
  qed
  define w1 where "w1 = foldl ?f w (map snd kv1)"
  define w2 where "w2 = process_entry now (env s) s w1"
  define w3 where "w3 = foldl ?f w2 (map snd kv2)"
  have tick: "processDueSchedules now env w = w3"
    by (simp add: processDueSchedules_foldl kv w1_def w2_def w3_def)
  have k1: "index_keys_match (SCHEDULE_KV w1)"
    unfolding w1_def using keys by (rule foldl_process_keys)
  have s1: "schedule_of sid (WALLET_DO w1 ?name) = Some sch"
    unfolding w1_def using foldl_process_other(2) [OF o1] sch by simp
  let ?w0 = "w1\<lparr>executor_calls := executor_calls w1 @ [s_scheduleId s]\<rparr>"
  have pe: "w2 = fire_succeeded (env s) s (respJson (outcome (env s))) ?w0"
    using due ok by (simp add: w2_def process_entry_def Let_def)
  have s0: "schedule_of (s_scheduleId s) (WALLET_DO ?w0 ?name) = Some sch"
    using s1 by (simp add: id)
  have sid': "s_scheduleId s \<noteq> []" using sid by (simp add: id)
  note r = fire_succeeded_retires [OF last adv user sid' s0, of "env s" "respJson (outcome (env s))"]
  let ?sch' = "AList.update ''times_remaining'' (JNum 0) (AList.update ''active'' (JBool False) sch)"
  have kv2': "map_of (SCHEDULE_KV w2) sid = None"
    unfolding pe r(1) by (simp add: id delete_conv')
  have k2: "index_keys_match (SCHEDULE_KV w2)"
    unfolding pe r(1) using k1 by (simp add: index_keys_match_delete)
  have s2: "schedule_of sid (WALLET_DO w2 ?name) = Some ?sch'"
    unfolding pe using r(2) by (simp add: id)
  have kv3: "map_of (SCHEDULE_KV w3) sid = None"
    unfolding w3_def using foldl_process_other(1) [OF o2] kv2' by simp
  have k3: "index_keys_match (SCHEDULE_KV w3)"
    unfolding w3_def using k2 by (rule foldl_process_keys)
  have s3: "schedule_of sid (WALLET_DO w3 ?name) = Some ?sch'"
    unfolding w3_def using foldl_process_other(2) [OF o2] s2 by simp
  from run_ticks_without [OF kv3 k3, of ticks ?name] obtain cs
    where rt: "map_of (SCHEDULE_KV (run_ticks ticks w3)) sid = None"
      "schedule_of sid (WALLET_DO (run_ticks ticks w3) ?name) = schedule_of sid (WALLET_DO w3 ?name)"
      "executor_calls (run_ticks ticks w3) = executor_calls w3 @ cs" "sid \<notin> set cs"
    by blast
  have f: "js_get ?sch' ''active'' = JBool False" "js_get ?sch' ''times_remaining'' = JNum 0"
    by (simp_all add: js_get_def update_conv')
  show ?thesis
    unfolding tick using kv3 s3 f rt by simp
qed

text \<open>The example schedule is retired by its last fire, on 2025-01-31.\<close>

lemma last_fire_retires_schedule_example:
  "\<exists>sch' cs.
       map_of (SCHEDULE_KV (processDueSchedules 1738281600400 always_ok example_world)) ''sched-1''
         = None
     \<and> schedule_of ''sched-1''
           (WALLET_DO (processDueSchedules 1738281600400 always_ok example_world)
              (toLowerCase (s_userAddress example_entry))) = Some sch'
     \<and> js_get sch' ''active'' = JBool False
     \<and> js_get sch' ''times_remaining'' = JNum 0
     \<and> map_of (SCHEDULE_KV (run_ticks [(1738281660400, always_ok)]
           (processDueSchedules 1738281600400 always_ok example_world))) ''sched-1'' = None
     \<and> schedule_of ''sched-1''
           (WALLET_DO (run_ticks [(1738281660400, always_ok)]
              (processDueSchedules 1738281600400 always_ok example_world))
              (toLowerCase (s_userAddress example_entry))) = Some sch'
     \<and> executor_calls (run_ticks [(1738281660400, always_ok)]
           (processDueSchedules 1738281600400 always_ok example_world))
         = executor_calls (processDueSchedules 1738281600400 always_ok example_world) @ cs
     \<and> ''sched-1'' \<notin> set cs"
proof (rule last_fire_retires_schedule)
  show "index_keys_match (SCHEDULE_KV example_world)"
    by (simp add: example_world_def example_entry_def index_keys_match_def)
  show "distinct (map fst (SCHEDULE_KV example_world))"
    by (simp add: example_world_def)
  show "map_of (SCHEDULE_KV example_world) ''sched-1'' = Some example_entry"
    by (simp add: example_world_def)
  show "''sched-1'' \<noteq> []" by simp
  show "s_nextRun example_entry = Some 1738281600000"
    by (simp add: example_entry_def)
  show "(1738281600000 :: int) \<le> 1738281600400" by simp
  show "fire_ok (outcome (always_ok example_entry))"
    by (simp add: always_ok_def example_env_def fire_ok_def resp_ok_def respJson_def js_get_def)
  show "s_times_remaining example_entry = Some 1"
    by (simp add: example_entry_def)
  show "incrementNextRunIso (s_nextRun example_entry) (s_interval example_entry)
      (s_intervalMs example_entry) = Inr 1740960000000"
    by code_simp
  show "s_userAddress example_entry \<noteq> []"
    by (simp add: example_entry_def)
  show "schedule_of ''sched-1'' (WALLET_DO example_world (toLowerCase (s_userAddress example_entry)))
      = Some example_schedule"
    by code_simp
qed








text \<open>
  C1, as amended. For every successful fire of a schedule with a user
  address, a recipient and an amount, exactly one transaction is appended to
  the user's shard; its status is \<open>completed\<close>, its \<open>txHash\<close> is the one of the
  executor's answer, or \<open>null\<close> when the answer has none, and it has no
  \<open>scheduleId\<close> field.
\<close>

theorem successful_fire_appends_one_completed:
  assumes "s_nextRun s = Some nextRunMs" and "nextRunMs \<le> now"
    and "fire_ok (outcome env)"
    and "s_userAddress s \<noteq> []" and "truthy (s_recipient s)" and "truthy (s_amount s)"
  shows "\<exists>entry.
       transactions (WALLET_DO (process_entry now env s w) (toLowerCase (s_userAddress s)))
         = transactions (WALLET_DO w (toLowerCase (s_userAddress s))) @ [entry]
     \<and> js_get entry ''status'' = JStr ''completed''
     \<and> js_get entry ''txHash'' = js_or (js_member (respJson (outcome env)) ''txHash'') JNull
     \<and> map_of entry ''scheduleId'' = None"
proof -
  let ?w0 = "w\<lparr>executor_calls := executor_calls w @ [s_scheduleId s]\<rparr>"
  have "process_entry now env s w = fire_succeeded env s (respJson (outcome env)) ?w0"
    using assms(1-3) by (simp add: process_entry_def Let_def)
  with fire_succeeded_transactions [OF assms(4-6), of env "respJson (outcome env)" ?w0]
  show ?thesis by simp
qed

theorem successful_fire_appends_one_completed_witness:
  "\<exists>entry.
       transactions (WALLET_DO (process_entry 1738281600400
           (example_env (Replied 200 (Some (JObj [(''ok'', JBool True), (''txHash'', JStr ''0xabc'')]))))
           example_entry example_world) (toLowerCase (s_userAddress example_entry)))
         = transactions (WALLET_DO example_world (toLowerCase (s_userAddress example_entry)))
             @ [entry]
     \<and> js_get entry ''status'' = JStr ''completed''
     \<and> js_get entry ''txHash''
         = js_or (js_member (respJson (outcome
             (example_env (Replied 200 (Some (JObj [(''ok'', JBool True), (''txHash'', JStr ''0xabc'')]))))))
             ''txHash'') JNull
     \<and> map_of entry ''scheduleId'' = None"
proof (rule successful_fire_appends_one_completed)
  show "s_nextRun example_entry = Some 1738281600000"
    by (simp add: example_entry_def)
  show "(1738281600000 :: int) \<le> 1738281600400" by simp
  show "fire_ok (outcome
      (example_env (Replied 200 (Some (JObj [(''ok'', JBool True), (''txHash'', JStr ''0xabc'')])))))"
    by (simp add: example_env_def fire_ok_def resp_ok_def respJson_def js_get_def)
  show "s_userAddress example_entry \<noteq> []" "truthy (s_recipient example_entry)"
    "truthy (s_amount example_entry)"
    by (simp_all add: example_entry_def)
qed

text \<open>
  C1 as stated fails. Whether the executor answers \<open>{ok: true, txHash: "0xabc"}\<close>
  or \<open>{ok: true}\<close>, the one stored record has no \<open>scheduleId\<close>; with the second
  answer the fire is successful and the stored \<open>txHash\<close> is \<open>null\<close>.
\<close>

theorem completed_transaction_has_no_scheduleId:
  "map (\<lambda>entry. (js_get entry ''status'', js_get entry ''txHash'', map_of entry ''scheduleId''))
     (transactions (WALLET_DO (process_entry 1738281600400
         (example_env (Replied 200 (Some (JObj [(''ok'', JBool True), (''txHash'', JStr ''0xabc'')]))))
         example_entry example_world) ''0xuser''))
     = [(JStr ''completed'', JStr ''0xabc'', None)]
   \<and> fire_ok (Replied 200 (Some (JObj [(''ok'', JBool True)])))
   \<and> map (\<lambda>entry. (js_get entry ''status'', js_get entry ''txHash'', map_of entry ''scheduleId''))
     (transactions (WALLET_DO (process_entry 1738281600400
         (example_env (Replied 200 (Some (JObj [(''ok'', JBool True)]))))
         example_entry example_world) ''0xuser''))
     = [(JStr ''completed'', JNull, None)]"
  by code_simp

lemma handleVerify_ignores_address:
  "handleVerify address signature st = handleVerify address' signature st"
  by (simp add: handleVerify_def)

lemma handleVerify_any_well_formed:
  "nonce st = Some n \<Longrightarrow> n \<noteq> [] \<Longrightarrow>
     handleVerify address (WellFormed recover) st
       = (Response 200 [(''success'', JBool True)], st\<lparr>nonce := None\<rparr>)"
  by (simp add: handleVerify_def)

text \<open>
  C2 fails on the code. \<open>handleVerify\<close> calls \<open>verifyMessage\<close> only to see whether
  it throws: the recovered address is never compared with the shard's
  address. With the nonce \<open>123456\<close> stored for the address \<open>0xaaaa\<close>, a
  well-formed signature that recovers to the other address \<open>0xbbbb\<close> is
  accepted and the nonce is consumed.
\<close>

theorem verify_accepts_signature_of_other_address:
  "handleVerify ''0xaaaa'' (WellFormed (\<lambda>message. ''0xbbbb''))
       (empty_shard\<lparr>nonce := Some ''123456''\<rparr>)
     = (Response 200 [(''success'', JBool True)], empty_shard\<lparr>nonce := None\<rparr>)
   \<and> verifyMessage (signin_message ''123456'') (WellFormed (\<lambda>message. ''0xbbbb''))
     = Inr ''0xbbbb''
   \<and> ''0xbbbb'' \<noteq> ''0xaaaa''"
  by (simp add: handleVerify_def empty_shard_def)

lemma monthly_fields:
  assumes t': "Day t' = Day t + DaysInMonth (MonthFromTime t) (InLeapYear t)"
  shows "if DateFromTime t \<le> DaysInMonth ((MonthFromTime t + 1) mod 12) (InLeapYear t)
         then YearFromTime t' = YearFromTime t + (MonthFromTime t + 1) div 12
            \<and> MonthFromTime t' = (MonthFromTime t + 1) mod 12
            \<and> DateFromTime t' = DateFromTime t
         else YearFromTime t' = YearFromTime t
            \<and> MonthFromTime t' = MonthFromTime t + 2
            \<and> DateFromTime t'
                = DateFromTime t - DaysInMonth (MonthFromTime t + 1) (InLeapYear t)"
proof -
  let ?y = "YearFromTime t" and ?m = "MonthFromTime t" and ?d = "DateFromTime t"
  let ?l = "InLeapYear t"
  note m = MonthFromTime_range [of t] and d = DateFromTime_range [of t]
    and l = InLeapYear_range [of t]
  have day: "Day t = DayFromYear ?y + monthStart ?m ?l + ?d - 1"
    by (simp add: DateFromTime_def DayWithinYear_def)
  have ll: "DaysInYear ?y - 365 = ?l" by (simp add: InLeapYear_eq)
  show ?thesis
  proof (cases "?m = 11")
    case True
    have "Day t' = DayFromYear (?y + 1) + monthStart 0 (DaysInYear (?y + 1) - 365) + ?d - 1"
      using t' day by (simp add: True DayFromYear_Suc ll [symmetric] monthStart_def DaysInMonth_def)
    moreover have "?d \<le> DaysInMonth 0 (DaysInYear (?y + 1) - 365)"
      using d by (simp add: True DaysInMonth_def)
    ultimately have "YearFromTime t' = ?y + 1 \<and> MonthFromTime t' = 0 \<and> DateFromTime t' = ?d"
      using d fields_of_day [of 0 ?d "?y + 1" t'] by simp
    moreover have "?d \<le> DaysInMonth ((?m + 1) mod 12) ?l"
      using d by (simp add: True DaysInMonth_def)
    ultimately show ?thesis by (simp add: True)
  next
    case False
    with m have m': "0 \<le> ?m" "?m < 11" by simp_all
    then have dm: "(?m + 1) div 12 = 0" "(?m + 1) mod 12 = ?m + 1" by simp_all
    have next_start: "Day t' = DayFromYear ?y + monthStart (?m + 1) ?l + ?d - 1"
      using t' day by (simp add: monthStart_Suc [OF m'])
    show ?thesis
    proof (cases "?d \<le> DaysInMonth (?m + 1) ?l")
      case True
      have "YearFromTime t' = ?y \<and> MonthFromTime t' = ?m + 1 \<and> DateFromTime t' = ?d"
        using fields_of_day [of "?m + 1" ?d ?y t'] m' d True next_start by (simp add: ll)
      with True show ?thesis by (simp add: dm)
    next
      case over: False
      have short: "DaysInMonth (?m + 1) ?l < 31" using over d l
        by (simp add: DaysInMonth_def split: if_splits)
      then have m2: "?m + 1 < 11"
        by (auto simp: DaysInMonth_def split: if_splits)
      have "monthStart (?m + 1 + 1) ?l = monthStart (?m + 1) ?l + DaysInMonth (?m + 1) ?l"
        using m' m2 by (intro monthStart_Suc) simp_all
      then have d2: "Day t' = DayFromYear ?y + monthStart (?m + 2) ?l
            + (?d - DaysInMonth (?m + 1) ?l) - 1"
        using next_start by (simp add: algebra_simps)
      have b1: "28 \<le> DaysInMonth (?m + 1) ?l" "28 \<le> DaysInMonth (?m + 2) ?l" "?d \<le> 31"
        using DaysInMonth_bounds [of ?l "?m + 1"] DaysInMonth_bounds [of ?l "?m + 2"]
          DaysInMonth_bounds [of ?l ?m] l d by simp_all
      have "YearFromTime t' = ?y \<and> MonthFromTime t' = ?m + 2
          \<and> DateFromTime t' = ?d - DaysInMonth (?m + 1) ?l"
        using fields_of_day [of "?m + 2" "?d - DaysInMonth (?m + 1) ?l" ?y t'] m' m2 over b1 d2
        by (simp add: ll)
      with over show ?thesis by (simp add: dm)
    qed
  qed
qed

text \<open>
  C3, as amended. For a schedule without a usable \<open>intervalMs\<close> (absent,
  \<open>null\<close>, 0 or not a number; a number other than 0 is added to \<open>nextRun\<close>
  instead, whatever the interval), monthly advancement of a valid \<open>nextRun\<close>
  adds the length of the calendar month that \<open>nextRun\<close> is in and keeps the
  time of day: \<open>nextRun\<close> moves to the same day-of-month of the immediately
  following calendar month when that month has such a day; otherwise the day
  is not clamped and runs over into the month after it, by the number of days
  missing. That date is the new \<open>nextRun\<close> unless it is beyond the range of
  \<open>Date\<close>, where \<open>toISOString\<close> throws a \<open>RangeError\<close>.
\<close>

theorem monthly_advancement:
  assumes no_ms: "\<not> (truthy intervalMs \<and> Number_isFinite intervalMs)"
    and valid: "\<bar>t\<bar> \<le> maxTime"
  shows "\<exists>t'. t' = t + DaysInMonth (MonthFromTime t) (InLeapYear t) * msPerDay
     \<and> incrementNextRunIso (Some t) (JStr ''monthly'') intervalMs
         = (if t' \<le> maxTime then Inr t' else Inl RangeError)
     \<and> TimeWithinDay t' = TimeWithinDay t
     \<and> (if DateFromTime t \<le> DaysInMonth ((MonthFromTime t + 1) mod 12) (InLeapYear t)
         then YearFromTime t' = YearFromTime t + (MonthFromTime t + 1) div 12
            \<and> MonthFromTime t' = (MonthFromTime t + 1) mod 12
            \<and> DateFromTime t' = DateFromTime t
         else YearFromTime t' = YearFromTime t
            \<and> MonthFromTime t' = MonthFromTime t + 2
            \<and> DateFromTime t'
                = DateFromTime t - DaysInMonth (MonthFromTime t + 1) (InLeapYear t))"
proof -
  let ?dim = "DaysInMonth (MonthFromTime t) (InLeapYear t)"
  let ?t' = "t + ?dim * msPerDay"
  have dim: "28 \<le> ?dim \<and> ?dim \<le> 31"
    using InLeapYear_range [of t] by (intro DaysInMonth_bounds) simp_all
  then have "0 < ?dim * msPerDay" using msPerDay_pos by simp
  then have later: "t < ?t'" by simp
  have lo: "- maxTime \<le> t" using valid by simp
  have clip: "TimeClip ?t' = (if ?t' \<le> maxTime then Some ?t' else None)"
    using lo later by (rule TimeClip_later)
  have c: "(truthy intervalMs \<and> Number_isFinite intervalMs) = False"
    using no_ms by simp
  have "incrementNextRunIso (Some t) (JStr ''monthly'') intervalMs
      = Date_toISOString (TimeClip ?t')"
    unfolding incrementNextRunIso_def c by (simp add: setUTCMonth_next)
  also have "\<dots> = (if ?t' \<le> maxTime then Inr ?t' else Inl RangeError)"
    unfolding clip by (simp add: Date_toISOString_def)
  finally have r: "incrementNextRunIso (Some t) (JStr ''monthly'') intervalMs
      = (if ?t' \<le> maxTime then Inr ?t' else Inl RangeError)" .
  have mk: "?t' = MakeDate (Day t + ?dim) (TimeWithinDay t)"
    by (simp only: MakeDate_plus)
  have day: "Day ?t' = Day t + ?dim" and tw: "TimeWithinDay ?t' = TimeWithinDay t"
    unfolding mk using TimeWithinDay_range [of t] by (simp_all add: Day_MakeDate)
  from monthly_fields [OF day] r tw show ?thesis by blast
qed

theorem monthly_advancement_witness:
  "\<exists>t'. t' = Date_UTC 2025 0 31 0 0 0 + 31 * msPerDay
     \<and> incrementNextRunIso (Some (Date_UTC 2025 0 31 0 0 0)) (JStr ''monthly'') JNull = Inr t'
     \<and> YearFromTime t' = 2025 \<and> MonthFromTime t' = 2 \<and> DateFromTime t' = 3"
proof -
  have t: "Date_UTC 2025 0 31 0 0 0 = 1738281600000"
    by code_simp
  have f: "MonthFromTime 1738281600000 = 0" "InLeapYear 1738281600000 = 0"
    "DateFromTime 1738281600000 = 31" "YearFromTime 1738281600000 = 2025"
    by code_simp+
  have h1: "\<not> (truthy JNull \<and> Number_isFinite JNull)" by simp
  have h2: "\<bar>1738281600000\<bar> \<le> maxTime" by (simp add: maxTime_def)
  from monthly_advancement [OF h1 h2] show ?thesis
    unfolding t f by (simp add: DaysInMonth_def maxTime_def msPerDay_def)
qed

text \<open>
  C3 as stated fails: from 2025-01-31T00:00:00Z a monthly schedule advances to
  2025-03-03T00:00:00Z, not to 2025-02-28T00:00:00Z.
\<close>

theorem monthly_from_jan31_is_mar3:
  "incrementNextRunIso (Some (Date_UTC 2025 0 31 0 0 0)) (JStr ''monthly'') JNull
     = Inr (Date_UTC 2025 2 3 0 0 0)
   \<and> Date_UTC 2025 2 3 0 0 0 \<noteq> Date_UTC 2025 1 28 0 0 0"
  by code_simp




text \<open>
  C5 fails on the code when the advanced \<open>nextRun\<close> is not a valid date. The
  schedule \<open>sched-1\<close> has one fire left and a custom interval of \<open>10^16\<close>
  milliseconds. Its fire succeeds and the completed transaction is stored;
  then \<open>incrementNextRunIso\<close> throws, before the index entry is deleted and
  the shard schedule is patched. The entry stays as it was, with
  \<open>times_remaining = 1\<close>, and the next tick fires the schedule again.
  (\<open>last_fire_retires_schedule\<close> above is the claim for every schedule whose
  advanced \<open>nextRun\<close> is a valid date.)
\<close>

theorem unadvanceable_schedule_fires_again:
  "s_times_remaining stuck_entry = Some 1
   \<and> fire_ok (outcome (always_ok stuck_entry))
   \<and> incrementNextRunIso (s_nextRun stuck_entry) (s_interval stuck_entry)
        (s_intervalMs stuck_entry) = Inl RangeError
   \<and> SCHEDULE_KV (processDueSchedules 1738281600400 always_ok stuck_world)
        = [(''sched-1'', stuck_entry)]
   \<and> executor_calls (processDueSchedules 1738281600400 always_ok stuck_world) = [''sched-1'']
   \<and> executor_calls (run_ticks [(1738281600400, always_ok), (1738281660400, always_ok)] stuck_world)
        = [''sched-1'', ''sched-1'']
   \<and> map (\<lambda>entry. js_get entry ''status'')
        (transactions (WALLET_DO
           (run_ticks [(1738281600400, always_ok), (1738281660400, always_ok)] stuck_world)
           ''0xuser''))
        = [JStr ''completed'', JStr ''completed'']
   \<and> map (\<lambda>sch. (js_get sch ''active'', js_get sch ''times_remaining''))
        (schedules (WALLET_DO
           (run_ticks [(1738281600400, always_ok), (1738281660400, always_ok)] stuck_world)
           ''0xuser''))
        = [(JBool True, JNum 1)]"
  by code_simp

lemma failed_outcomes:
  "st < 200 \<or> 299 < st \<Longrightarrow> \<not> fire_ok (Replied st b)"
  "\<not> fire_ok (Rejected message)"
  by (auto simp: fire_ok_def resp_ok_def)

text \<open>
  C6, as amended. When the fire of a schedule that has a user address, a
  schedule id, a recipient and an amount (a truthy one: neither 0 nor
  \<open>null\<close>), and whose schedule is stored in the shard of its user, fails (the
  executor's answer is not OK, or is not a success answer, or the request is
  rejected by the network), exactly one transaction is appended to the shard,
  with status \<open>failed\<close> and
  a diagnostic note that is not empty; \<open>nextRun\<close> is set to the time of the
  failure plus 600 seconds in the index entry and in the shard schedule, and
  \<open>times_remaining\<close> is unchanged in both.
\<close>

theorem failed_fire_retries_in_600_seconds:
  assumes "s_nextRun s = Some nextRunMs" and "nextRunMs \<le> now"
    and "\<not> fire_ok (outcome env)"
    and "s_userAddress s \<noteq> []" and "truthy (s_recipient s)" and "truthy (s_amount s)"
    and "s_scheduleId s \<noteq> []"
    and "schedule_of (s_scheduleId s) (WALLET_DO w (toLowerCase (s_userAddress s))) = Some sch"
  shows "\<exists>entry s' sch'.
       transactions (WALLET_DO (process_entry now env s w) (toLowerCase (s_userAddress s)))
         = transactions (WALLET_DO w (toLowerCase (s_userAddress s))) @ [entry]
     \<and> js_get entry ''status'' = JStr ''failed''
     \<and> js_get entry ''note''
         = js_or (js_and (respJson (outcome env)) (js_member (respJson (outcome env)) ''error''))
             (JStr (''backend error: '' @ Number_toString (resp_status_of (outcome env))))
     \<and> truthy (js_get entry ''note'')
     \<and> map_of (SCHEDULE_KV (process_entry now env s w)) (s_scheduleId s) = Some s'
     \<and> s' = s\<lparr>s_nextRun := Some (retry_time env + 600 * 1000)\<rparr>
     \<and> s_times_remaining s' = s_times_remaining s
     \<and> schedule_of (s_scheduleId s)
           (WALLET_DO (process_entry now env s w) (toLowerCase (s_userAddress s))) = Some sch'
     \<and> js_get sch' ''nextRun'' = JStr (toISOString (retry_time env + 600 * 1000))
     \<and> js_get sch' ''times_remaining'' = js_get sch ''times_remaining''"
proof -
  let ?w0 = "w\<lparr>executor_calls := executor_calls w @ [s_scheduleId s]\<rparr>"
  let ?name = "toLowerCase (s_userAddress s)"
  let ?w' = "process_entry now env s w"
  let ?iso = "JStr (toISOString (retry_time env + 600 * 1000))"
  have pe: "?w' = fire_failed env s (outcome env) ?w0"
    using assms(1-3) by (simp add: process_entry_def Let_def)
  from fire_failed_transactions [OF assms(4-6), of env "outcome env" ?w0]
  obtain entry where e: "transactions (WALLET_DO ?w' ?name)
        = transactions (WALLET_DO w ?name) @ [entry]"
    "js_get entry ''status'' = JStr ''failed''"
    "js_get entry ''note''
       = js_or (js_and (respJson (outcome env)) (js_member (respJson (outcome env)) ''error''))
           (JStr (''backend error: '' @ Number_toString (resp_status_of (outcome env))))"
    "truthy (js_get entry ''note'')"
    unfolding pe by auto
  have kv: "map_of (SCHEDULE_KV ?w') (s_scheduleId s)
      = Some (s\<lparr>s_nextRun := Some (retry_time env + 600 * 1000)\<rparr>)"
    unfolding pe fire_failed_index by (simp add: update_conv')
  have "schedule_of (s_scheduleId s) (WALLET_DO ?w0 ?name) = Some sch"
    using assms(8) by simp
  from fire_failed_schedule [OF assms(4,7) this, of env "outcome env"]
  have sc: "schedule_of (s_scheduleId s) (WALLET_DO ?w' ?name)
      = Some (AList.update ''nextRun'' ?iso sch)"
    unfolding pe .
  have f: "js_get (AList.update ''nextRun'' ?iso sch) ''nextRun'' = ?iso"
    "js_get (AList.update ''nextRun'' ?iso sch) ''times_remaining'' = js_get sch ''times_remaining''"
    by (simp_all add: js_get_def update_conv')
  from e kv sc f show ?thesis by simp
qed

theorem failed_fire_retries_in_600_seconds_witness:
  "\<exists>entry s' sch'.
       transactions (WALLET_DO (process_entry 1738281600400 (example_env (Replied 500 None))
           example_entry example_world) (toLowerCase (s_userAddress example_entry)))
         = transactions (WALLET_DO example_world (toLowerCase (s_userAddress example_entry)))
             @ [entry]
     \<and> js_get entry ''status'' = JStr ''failed''
     \<and> js_get entry ''note''
         = js_or (js_and (respJson (outcome (example_env (Replied 500 None))))
                    (js_member (respJson (outcome (example_env (Replied 500 None)))) ''error''))
             (JStr (''backend error: ''
                @ Number_toString (resp_status_of (outcome (example_env (Replied 500 None))))))
     \<and> truthy (js_get entry ''note'')
     \<and> map_of (SCHEDULE_KV (process_entry 1738281600400 (example_env (Replied 500 None))
           example_entry example_world)) (s_scheduleId example_entry) = Some s'
     \<and> s' = example_entry\<lparr>s_nextRun := Some (retry_time (example_env (Replied 500 None)) + 600 * 1000)\<rparr>
     \<and> s_times_remaining s' = s_times_remaining example_entry
     \<and> schedule_of (s_scheduleId example_entry)
           (WALLET_DO (process_entry 1738281600400 (example_env (Replied 500 None))
              example_entry example_world) (toLowerCase (s_userAddress example_entry))) = Some sch'
     \<and> js_get sch' ''nextRun''
         = JStr (toISOString (retry_time (example_env (Replied 500 None)) + 600 * 1000))
     \<and> js_get sch' ''times_remaining'' = js_get example_schedule ''times_remaining''"
proof (rule failed_fire_retries_in_600_seconds)
  show "s_nextRun example_entry = Some 1738281600000"
    by (simp add: example_entry_def)
  show "(1738281600000 :: int) \<le> 1738281600400" by simp
  show "\<not> fire_ok (outcome (example_env (Replied 500 None)))"
    by (simp add: example_env_def fire_ok_def resp_ok_def)
  show "s_userAddress example_entry \<noteq> []" "truthy (s_recipient example_entry)"
    "truthy (s_amount example_entry)" "s_scheduleId example_entry \<noteq> []"
    by (simp_all add: example_entry_def)
  show "schedule_of (s_scheduleId example_entry)
      (WALLET_DO example_world (toLowerCase (s_userAddress example_entry))) = Some example_schedule"
    by code_simp
qed

text \<open>
  C6 as stated fails: the failed fire of a schedule whose amount is 0 appends
  no transaction to the shard (\<open>storeTransaction\<close> refuses a record without an
  amount), while the retry is scheduled as for any other failure.
\<close>

theorem failed_fire_of_zero_amount_stores_nothing:
  "\<not> fire_ok (outcome (example_env (Replied 500 None)))
   \<and> transactions (WALLET_DO zero_amount_world ''0xuser'') = []
   \<and> transactions (WALLET_DO (process_entry 1738281600400 (example_env (Replied 500 None))
        zero_amount_entry zero_amount_world) ''0xuser'') = []
   \<and> map_of (SCHEDULE_KV (process_entry 1738281600400 (example_env (Replied 500 None))
        zero_amount_entry zero_amount_world)) ''sched-1''
       = Some (zero_amount_entry\<lparr>s_nextRun := Some (1738281601000 + 600 * 1000)\<rparr>)"
  by code_simp



text \<open>
  C8, as amended. A worker-authenticated request (\<open>POST\<close> or \<open>PUT\<close>, both
  headers present) whose timestamp differs from the server's current time by
  more than 300 seconds in either direction is answered with status 401 and
  the error \<open>Timestamp too old\<close>, and \<open>next()\<close> is not called, so the payment is
  not executed; a request whose timestamp is within the window (300 seconds
  or less) is not rejected for staleness: it is rejected only with status 403
  when its signature is not the expected one, and passed on otherwise.
\<close>

theorem stale_timestamp_rejected:
  assumes "req_method req = ''POST'' \<or> req_method req = ''PUT''"
    and "x_worker_auth req = Some signature" and "signature \<noteq> []"
    and "x_worker_timestamp req = Some timestamp" and "timestamp \<noteq> []"
    and "toNumber timestamp = Some ts"
  shows "workerAuth hmac toNumber secret now req =
     (if \<bar>now - ts\<bar> > 300 * 1000
      then Respond (Response 401 [(''error'', JStr ''Timestamp too old'')])
      else if signature = hmac secret (timestamp @ (case rawBody req of
                              None \<Rightarrow> stable_body req
                            | Some raw \<Rightarrow> if raw = [] then stable_body req else raw))
      then Next
      else Respond (Response 403 [(''error'', JStr ''Invalid worker signature'')]))"
  using assms by (auto simp: workerAuth_def Let_def)

text \<open>
  A request of the worker, signed at time 1700000000000, arrives 301 seconds
  later and is answered with 401; the same request 299 seconds after its
  timestamp is passed on.
\<close>

theorem stale_timestamp_rejected_witness:
  "workerAuth example_hmac example_toNumber ''secret'' 1700000301000 (example_request example_hmac)
     = Respond (Response 401 [(''error'', JStr ''Timestamp too old'')])
   \<and> workerAuth example_hmac example_toNumber ''secret'' 1700000299000 (example_request example_hmac)
     = Next"
proof -
  let ?req = "example_request example_hmac"
  have h: "req_method ?req = ''POST'' \<or> req_method ?req = ''PUT''"
    "x_worker_auth ?req = Some (example_hmac ''secret'' (''1700000000000'' @ ''{}''))"
    "example_hmac ''secret'' (''1700000000000'' @ ''{}'') \<noteq> []"
    "x_worker_timestamp ?req = Some ''1700000000000''"
    "''1700000000000'' \<noteq> []"
    "example_toNumber ''1700000000000'' = Some 1700000000000"
    by (simp_all add: example_request_def example_hmac_def example_toNumber_def)
  show ?thesis
    using stale_timestamp_rejected [where toNumber = example_toNumber
          and timestamp = "''1700000000000''" and ts = 1700000000000
          and hmac = example_hmac and secret = "''secret''" and now = 1700000301000, OF h]
      stale_timestamp_rejected [where toNumber = example_toNumber
          and timestamp = "''1700000000000''" and ts = 1700000000000
          and hmac = example_hmac and secret = "''secret''" and now = 1700000299000, OF h]
    by (simp add: example_request_def)
qed

text \<open>
  C8 as stated fails: the stale request is refused with status 401, the
  status of the \<open>unauthorized\<close> errors, not with 403, the status that
  \<open>workerAuth\<close> gives to its \<open>forbidden\<close> error.
\<close>

theorem stale_timestamp_is_401_not_403:
  "workerAuth example_hmac example_toNumber ''secret'' 1700000301000 (example_request example_hmac)
     = Respond (Response 401 [(''error'', JStr ''Timestamp too old'')])
   \<and> resp_status (Response 401 [(''error'', JStr ''Timestamp too old'')]) \<noteq> 403"
  by (simp add: workerAuth_def example_request_def example_hmac_def example_toNumber_def)




lemma digit_char_decimal:
  assumes "d < 10"
  shows "digit_char d \<in> set ''0123456789''" and "digit_value (digit_char d) = d"
proof -
  from assms have "d = 0 \<or> d = 1 \<or> d = 2 \<or> d = 3 \<or> d = 4 \<or> d = 5 \<or> d = 6 \<or> d = 7
      \<or> d = 8 \<or> d = 9"
    by arith
  then show "digit_char d \<in> set ''0123456789''" and "digit_value (digit_char d) = d"
    by (auto simp: digit_char_def digit_value_def)
qed

lemma digits10_chars: "set (digits10 n) \<subseteq> set ''0123456789''"
proof (induction n rule: digits10.induct)
  case (1 n)
  show ?case
  proof (cases "n < 10")
    case True
    then show ?thesis using digit_char_decimal(1) [of n] by (subst digits10.simps) simp
  next
    case False
    have "n mod 10 < 10" by simp
    then have "digit_char (n mod 10) \<in> set ''0123456789''" by (rule digit_char_decimal)
    with False "1.IH" show ?thesis by (subst digits10.simps) simp
  qed
qed

lemma digits10_read: "read_decimal (digits10 n) = n"
proof (induction n rule: digits10.induct)
  case (1 n)
  show ?case
  proof (cases "n < 10")
    case True
    then show ?thesis
      using digit_char_decimal(2) [of n] by (subst digits10.simps) (simp add: read_decimal_def)
  next
    case False
    have "digit_value (digit_char (n mod 10)) = n mod 10"
      by (rule digit_char_decimal) simp
    moreover have "read_decimal (digits10 (n div 10)) = n div 10"
      using False by (intro "1.IH") simp
    ultimately show ?thesis
      using False by (subst digits10.simps) (simp add: read_decimal_def)
  qed
qed

lemma digits10_length: "n < 10 ^ k \<Longrightarrow> 0 < k \<Longrightarrow> length (digits10 n) \<le> k"
proof (induction n arbitrary: k rule: digits10.induct)
  case (1 n)
  show ?case
  proof (cases "n < 10")
    case True
    then show ?thesis using "1.prems" by (subst digits10.simps) simp
  next
    case False
    then obtain j where k: "k = Suc j" and j: "0 < j"
      using "1.prems" by (cases k; cases "k - 1") auto
    have "n div 10 < 10 ^ j"
      using "1.prems"(1) unfolding k by (simp add: less_mult_imp_div_less mult.commute)
    then have "length (digits10 (n div 10)) \<le> j"
      using False j by (intro "1.IH") simp_all
    then show ?thesis using False k by (subst digits10.simps) simp
  qed
qed

text \<open>
  The greatest double below 1 is \<open>1 - 1 / 2 ^ 53\<close>; its exact product with
  1000000 is less than half a unit in the last place below 1000000 and rounds
  down, to the double \<open>1000000 - 1 / 2 ^ 33\<close>. So the rounded product of a
  result of \<open>Math.random()\<close> and 1000000 is below 1000000.
\<close>

lemma random_million:
  assumes "is_double u" "0 \<le> u" "u < 1"
  shows "0 \<le> \<lfloor>double_of (u * 1000000)\<rfloor>" and "\<lfloor>double_of (u * 1000000)\<rfloor> < 1000000"
proof -
  have "0 \<le> double_of (u * 1000000)" using assms(2) by (intro double_of_nonneg) simp
  then show "0 \<le> \<lfloor>double_of (u * 1000000)\<rfloor>" by simp
  have "u \<le> 1 - 1 / 2 ^ 53"
    using assms(1,3) by (intro double_below_one) (simp_all add: is_double_def)
  then have "u * 1000000 \<le> (1 - 1 / 2 ^ 53) * 1000000" by simp
  then have "double_of (u * 1000000) \<le> double_of ((1 - 1 / 2 ^ 53) * 1000000)"
    by (rule double_of_mono)
  also have "double_of ((1 - 1 / 2 ^ 53) * 1000000) = 1000000 - 1 / 2 ^ 33" by code_simp
  finally have "double_of (u * 1000000) < 1000000" by simp
  then show "\<lfloor>double_of (u * 1000000)\<rfloor> < 1000000" by (simp add: floor_less_iff)
qed

text \<open>
  C10. Every nonce that \<open>handleNonce\<close> returns, and stores, is the decimal
  representation of a whole number \<open>n\<close> with \<open>0 \<le> n < 1000000\<close>: a string of
  at most six decimal digits that reads as \<open>n\<close>. \<open>Math.random()\<close> returns a
  double from 0 up to, not including, 1, and \<open>n\<close> is the floor of its rounded
  product with 1000000.
\<close>

theorem nonce_below_million:
  assumes "is_double u" "0 \<le> u" "u < 1"
  shows "\<exists>n code. fst (handleNonce u now st) = Response 200 [(''nonce'', JStr code)]
      \<and> nonce (snd (handleNonce u now st)) = Some code
      \<and> int n = \<lfloor>double_of (u * 1000000)\<rfloor>
      \<and> code = Number_toString (int n) \<and> n < 1000000
      \<and> read_decimal code = n \<and> set code \<subseteq> set ''0123456789''
      \<and> 1 \<le> length code \<and> length code \<le> 6"
proof -
  define n where "n = nat \<lfloor>double_of (u * 1000000)\<rfloor>"
  note r = random_million [OF assms]
  have i: "int n = \<lfloor>double_of (u * 1000000)\<rfloor>" using r by (simp add: n_def)
  have "int n < 1000000" using r by (simp only: i)
  then have lt: "n < 1000000" by linarith
  have str: "Number_toString (int n) = digits10 n" by (simp add: Number_toString_def)
  have "n < 10 ^ 6" using lt by simp
  then have len: "length (digits10 n) \<le> 6" by (rule digits10_length) simp
  have ne: "1 \<le> length (digits10 n)" by (subst digits10.simps) simp
  show ?thesis
    apply (rule exI [of _ n], rule exI [of _ "digits10 n"])
    using lt len ne digits10_read [of n] digits10_chars [of n]
    by (simp add: handleNonce_def Let_def i [symmetric] str del: digits10.simps)
qed

theorem nonce_below_million_witness:
  "\<exists>n code. fst (handleNonce (1 / 2) 0 empty_shard) = Response 200 [(''nonce'', JStr code)]
      \<and> nonce (snd (handleNonce (1 / 2) 0 empty_shard)) = Some code
      \<and> int n = \<lfloor>double_of (1 / 2 * 1000000)\<rfloor>
      \<and> code = Number_toString (int n) \<and> n < 1000000
      \<and> read_decimal code = n \<and> set code \<subseteq> set ''0123456789''
      \<and> 1 \<le> length code \<and> length code \<le> 6"
proof (rule nonce_below_million)
  show "is_double (1 / 2)" by code_simp
qed simp_all

end
